theory Spec2Isabelle
  imports Main "HOL-Library.Word"
begin

unbundle bit_operations_syntax

section \<open>uniqid: the identifier generator of uniqid.go\<close>

subsection \<open>Constants and data\<close>

text \<open>
  \<^verbatim>\<open>const alphabet = "ABC...XYZabc...xyz0123456789-_"\<close> and
  \<^verbatim>\<open>const defaultEpochMs = int64(1577836800000)\<close>.
  Go's \<open>int64\<close> and \<open>uint64\<close> are both \<open>64 word\<close>; the signed reading is
  \<open>sint\<close>, signed comparison is \<open>\<le>s\<close>, and the conversion \<open>uint64(x)\<close> of an
  \<open>int64\<close> keeps the bits. \<open>uint16\<close> is \<open>16 word\<close>.
\<close>

definition alphabet :: string where
  "alphabet = ''ABCDEFGHIJKLMNOPQRSTUVWXYZabcdefghijklmnopqrstuvwxyz0123456789-_''"

definition defaultEpochMs :: "64 word" where
  "defaultEpochMs = 1577836800000"

text \<open>\<open>Config\<close>: \<open>ShardID\<close> is a Go \<open>int\<close>, \<open>CustomEpochMs\<close> an \<open>int64\<close>.\<close>

record Config =
  ShardID :: int
  CustomEpochMs :: "64 word"

text \<open>
  \<open>Generator\<close> without the mutex (calls are sequential here) and without the
  injected dependencies, which are parameters of the functions that use them.
\<close>

record Generator =
  lastMs :: "64 word"
  seq :: "16 word"
  shard :: "16 word"
  baseEpoch :: "64 word"

text \<open>
  The errors of the package. \<open>InvalidShard\<close> is
  \<^verbatim>\<open>errors.New("shardID must be 0..1023")\<close>, \<open>NoSignalAvailable\<close> is
  \<^verbatim>\<open>errors.New("could not determine shard ID")\<close>.
\<close>

datatype error = InvalidShard | NoSignalAvailable

subsection \<open>Rendering: lines 165 to 170 of \<open>Next\<close>\<close>

text \<open>
  \<^verbatim>\<open>
  var out [11]byte
  for i := 10; i >= 0; i-- {
      out[i] = alphabet[val&63]
      val >>= 6
  }
  return string(out[:])
  \<close>
  \<open>encodeLoop (Suc i)\<close> is the iteration with loop variable \<open>i\<close>; the index
  \<open>val&63\<close> is below 64, the length of the alphabet.
\<close>

fun encodeLoop :: "nat \<Rightarrow> 64 word \<Rightarrow> string \<Rightarrow> string" where
  "encodeLoop 0 val out = out"
| "encodeLoop (Suc i) val out =
     encodeLoop i (drop_bit 6 val) (out[i := alphabet ! unat (val AND 63)])"

definition encode :: "64 word \<Rightarrow> string" where
  "encode val = encodeLoop 11 val (replicate 11 (CHR 0x00))"

subsection \<open>The clock and the spin-wait\<close>

text \<open>
  \<open>nowFunc\<close> is a function with an effect: each call reads the clock. The clock is
  modelled as the sequence of its readings, \<open>nowFunc k\<close> being the reading of the
  \<open>k\<close>-th call, and every function that reads it takes the number of readings made
  so far and returns the new number.

  \<^verbatim>\<open>
  func spinUntilNextMs(baseEpoch, lastMs int64, nowFunc func() int64) {
      target := lastMs + 1
      for {
          now := nowFunc() - baseEpoch
          if now >= target { return }
          runtime.Gosched(); time.Sleep(10 * time.Microsecond)
      }
  }
  \<close>
  The loop may run forever (a clock that never advances), so it is a partial function:
  \<open>None\<close> is the call that does not return. The parameters \<open>baseEpoch\<close> and
  \<open>lastMs\<close> are \<open>epoch\<close> and \<open>lastTick\<close> here (the record's fields have the names).
\<close>

partial_function (option) spinUntilNextMs ::
  "64 word \<Rightarrow> 64 word \<Rightarrow> (nat \<Rightarrow> 64 word) \<Rightarrow> nat \<Rightarrow> nat option" where
  "spinUntilNextMs epoch lastTick nowFunc k =
     (if lastTick + 1 \<le>s nowFunc k - epoch then Some (Suc k)
      else spinUntilNextMs epoch lastTick nowFunc (Suc k))"

declare spinUntilNextMs.simps [code]

subsection \<open>\<open>Next\<close>\<close>

text \<open>Go's built-in \<open>max\<close> on \<open>int64\<close>.\<close>

definition max64 :: "64 word \<Rightarrow> 64 word \<Rightarrow> 64 word" where
  "max64 a b = (if a \<le>s b then b else a)"

text \<open>
  Line 163:
  \<^verbatim>\<open>val := (uint64(nowMs) << 25) | (uint64(g.shard) << 15) | uint64(g.seq)\<close>
\<close>

definition pack :: "64 word \<Rightarrow> 16 word \<Rightarrow> 16 word \<Rightarrow> 64 word" where
  "pack nowMs sh sq = push_bit 25 nowMs OR push_bit 15 (ucast sh) OR ucast sq"

text \<open>
  The critical section of \<open>Next\<close>, lines 147 to 164: the packed value, the generator
  after the call and the number of clock readings made.
  \<^verbatim>\<open>
  nowMs := max(g.deps.nowFunc()-g.baseEpoch, g.lastMs)
  if nowMs == g.lastMs {
      g.seq++
      if g.seq >= 1<<15 {
          spinUntilNextMs(g.baseEpoch, nowMs, g.deps.nowFunc)
          nowMs = g.deps.nowFunc() - g.baseEpoch
          g.lastMs = nowMs
          g.seq = 0
      }
  } else {
      g.seq = 0
      g.lastMs = nowMs
  }
  \<close>
\<close>

definition nextVal ::
  "Generator \<Rightarrow> (nat \<Rightarrow> 64 word) \<Rightarrow> nat \<Rightarrow> (64 word \<times> Generator \<times> nat) option" where
  "nextVal g nowFunc k =
     (let nowMs = max64 (nowFunc k - baseEpoch g) (lastMs g) in
      if nowMs = lastMs g then
        (let g1 = g\<lparr>seq := seq g + 1\<rparr> in
         if 2 ^ 15 \<le> seq g1 then
           (case spinUntilNextMs (baseEpoch g1) nowMs nowFunc (Suc k) of
              None \<Rightarrow> None
            | Some k' \<Rightarrow>
                (let nowMs' = nowFunc k' - baseEpoch g1;
                     g2 = g1\<lparr>lastMs := nowMs', seq := 0\<rparr>
                 in Some (pack nowMs' (shard g2) (seq g2), g2, Suc k')))
         else Some (pack nowMs (shard g1) (seq g1), g1, Suc k))
      else
        (let g1 = g\<lparr>seq := 0, lastMs := nowMs\<rparr>
         in Some (pack nowMs (shard g1) (seq g1), g1, Suc k)))"

definition Next ::
  "Generator \<Rightarrow> (nat \<Rightarrow> 64 word) \<Rightarrow> nat \<Rightarrow> (string \<times> Generator \<times> nat) option" where
  "Next g nowFunc k =
     (case nextVal g nowFunc k of
        None \<Rightarrow> None
      | Some (val, g', k') \<Rightarrow> Some (encode val, g', k'))"

text \<open>
  Sequential use of one generator, as the loop of \<open>TestNextIDGeneration\<close> and of
  \<open>TestSequenceRollover\<close> does it (\<^verbatim>\<open>for i := 0; i < n; i++ { gen.Next() }\<close>):
  the identifiers in the order of issuance, the generator and the clock position after
  the last call.
\<close>

fun issue ::
  "nat \<Rightarrow> Generator \<Rightarrow> (nat \<Rightarrow> 64 word) \<Rightarrow> nat \<Rightarrow> (string list \<times> Generator \<times> nat) option" where
  "issue 0 g nowFunc k = Some ([], g, k)"
| "issue (Suc n) g nowFunc k =
     (case Next g nowFunc k of
        None \<Rightarrow> None
      | Some (s, g', k') \<Rightarrow>
          (case issue n g' nowFunc k' of
             None \<Rightarrow> None
           | Some (ss, g'', k'') \<Rightarrow> Some (s # ss, g'', k'')))"

text \<open>
  The call takes the branch of lines 151 to 158 (sequence exhausted, spin-wait and
  second reading of the clock): the two conditions of lines 149 and 151.
\<close>

definition rollsOver :: "Generator \<Rightarrow> (nat \<Rightarrow> 64 word) \<Rightarrow> nat \<Rightarrow> bool" where
  "rollsOver g nowFunc k \<longleftrightarrow>
     max64 (nowFunc k - baseEpoch g) (lastMs g) = lastMs g \<and> 2 ^ 15 \<le> seq g + 1"

subsection \<open>The layout of the packed value, read back\<close>

text \<open>
  The three fields that line 163 packs: 39 bits of tick above 10 bits of shard above
  15 bits of sequence.
\<close>

definition tickField :: "64 word \<Rightarrow> 64 word" where
  "tickField val = drop_bit 25 val"

definition shardField :: "64 word \<Rightarrow> 64 word" where
  "shardField val = drop_bit 15 val AND 0x3FF"

definition seqField :: "64 word \<Rightarrow> 64 word" where
  "seqField val = val AND 0x7FFF"

subsection \<open>Comparing encoded strings by alphabet index\<close>

text \<open>
  The position of a character in a string (its length when absent), and the
  lexicographic order of strings whose characters are compared by their position in
  \<open>alphabet\<close>.
\<close>

fun indexOf :: "char \<Rightarrow> string \<Rightarrow> nat" where
  "indexOf c [] = 0"
| "indexOf c (x # xs) = (if x = c then 0 else Suc (indexOf c xs))"

definition alphaIndex :: "char \<Rightarrow> nat" where
  "alphaIndex c = indexOf c alphabet"

fun lexLess :: "string \<Rightarrow> string \<Rightarrow> bool" where
  "lexLess [] [] = False"
| "lexLess [] (y # ys) = True"
| "lexLess (x # xs) [] = False"
| "lexLess (x # xs) (y # ys) =
     (alphaIndex x < alphaIndex y \<or> (alphaIndex x = alphaIndex y \<and> lexLess xs ys))"

text \<open>The base-64 digits of a number, most significant first (used in the proofs).\<close>

fun digs :: "nat \<Rightarrow> nat \<Rightarrow> nat list" where
  "digs 0 n = []"
| "digs (Suc k) n = digs k (n div 64) @ [n mod 64]"

subsection \<open>Automatic shard: \<open>autoShardWithDeps\<close>\<close>

text \<open>
  \<open>net.Interface\<close>, the two fields the code reads. \<open>net.FlagLoopback\<close> is the third
  flag of the standard library's \<^verbatim>\<open>FlagUp Flags = 1 << iota\<close> list.
\<close>

record Interface =
  Flags :: "64 word"
  HardwareAddr :: "8 word list"

definition FlagLoopback :: "64 word" where
  "FlagLoopback = 4"

text \<open>
  \<open>deps\<close>: what each system source returns when \<open>autoShardWithDeps\<close> calls it (each is
  called at most once). \<open>ifacesFunc\<close> is the returned list (its error is discarded by
  \<^verbatim>\<open>ifs, _ :=\<close>); \<open>hostFunc\<close> is the host name as its bytes, \<open>None\<close> when it returns an
  error; \<open>randFunc\<close> is the content of the two-byte buffer after the call, \<open>None\<close> when
  it returns an error. \<open>nowFunc\<close> is the clock parameter of \<open>Next\<close>.
\<close>

record deps =
  ifacesFunc :: "Interface list"
  hostFunc :: "8 word list option"
  randFunc :: "(8 word \<times> 8 word) option"

text \<open>
  \<open>fnv.New32a\<close>, \<open>Write\<close> and \<open>Sum32\<close> of the standard library's \<open>hash/fnv\<close>:
  \<^verbatim>\<open>hash := offset32; for _, c := range data { hash ^= uint32(c); hash *= prime32 }\<close>
  with \<open>offset32 = 2166136261\<close> and \<open>prime32 = 16777619\<close>.
\<close>

definition fnv32a :: "8 word list \<Rightarrow> 32 word" where
  "fnv32a bs = foldl (\<lambda>h c. (h XOR ucast c) * 16777619) 2166136261 bs"

text \<open>\<open>binary.BigEndian.Uint16\<close>: \<^verbatim>\<open>uint16(b[1]) | uint16(b[0])<<8\<close>.\<close>

definition bigEndianUint16 :: "8 word \<Rightarrow> 8 word \<Rightarrow> 16 word" where
  "bigEndianUint16 b0 b1 = ucast b1 OR push_bit 8 (ucast b0)"

text \<open>
  The loop of lines 192 to 199: the shard of the first interface that is not a loopback
  and has a hardware address.
\<close>

fun ifaceShard :: "Interface list \<Rightarrow> 16 word option" where
  "ifaceShard [] = None"
| "ifaceShard (i # ifs) =
     (if Flags i AND FlagLoopback \<noteq> 0 \<or> length (HardwareAddr i) = 0 then ifaceShard ifs
      else Some (ucast (fnv32a (HardwareAddr i) AND 0x3FF)))"

definition autoShardWithDeps :: "deps \<Rightarrow> error + 16 word" where
  "autoShardWithDeps d =
     (case (if 0 < length (ifacesFunc d) then ifaceShard (ifacesFunc d) else None) of
        Some s \<Rightarrow> Inr s
      | None \<Rightarrow>
          (case hostFunc d of
             Some hn \<Rightarrow> Inr (ucast (fnv32a hn AND 0x3FF))
           | None \<Rightarrow>
               (case randFunc d of
                  Some (b0, b1) \<Rightarrow> Inr (bigEndianUint16 b0 b1 AND 0x3FF)
                | None \<Rightarrow> Inl NoSignalAvailable)))"

subsection \<open>\<open>New\<close>\<close>

text \<open>
  \<open>cfg\<close> is a pointer: \<open>None\<close> is \<open>nil\<close>. \<open>d\<close> is what the system sources return if
  \<open>autoShardFunc\<close> (which is \<open>autoShardWithDeps\<close>) is called. The fields \<open>lastMs\<close>
  and \<open>seq\<close> of the composite literal are Go's zero values.
\<close>

definition New :: "deps \<Rightarrow> Config option \<Rightarrow> error + Generator" where
  "New d cfg0 =
     (let cfg = (case cfg0 of
                   None \<Rightarrow> \<lparr>ShardID = - 1, CustomEpochMs = defaultEpochMs\<rparr>
                 | Some c \<Rightarrow> c);
          epoch = (if CustomEpochMs cfg = 0 then defaultEpochMs else CustomEpochMs cfg);
          g = \<lparr>lastMs = 0, seq = 0, shard = 0, baseEpoch = epoch\<rparr>
      in if 0 \<le> ShardID cfg then
           (if 1023 < ShardID cfg then Inl InvalidShard
            else Inr (g\<lparr>shard := word_of_int (ShardID cfg)\<rparr>))
         else
           (case autoShardWithDeps d of
              Inl err \<Rightarrow> Inl err
            | Inr s \<Rightarrow> Inr (g\<lparr>shard := s\<rparr>)))"

subsection \<open>\<open>Gen\<close> and the package-level default generator\<close>

text \<open>
  The package variables \<open>defaultGen\<close>, \<open>defaultGenErr\<close> and \<open>defaultGenOnce\<close>; a
  \<open>sync.Once\<close> is the flag that says whether \<open>Do\<close> has run its function.
\<close>

record Pkg =
  defaultGen :: "Generator option"
  defaultGenErr :: "error option"
  defaultGenOnce :: bool

text \<open>
  What a call of \<open>Gen\<close> gives its caller: \<open>(id, nil)\<close>, \<open>("", err)\<close>, or the panic of
  calling \<open>Next\<close> on a \<open>nil\<close> generator.
\<close>

datatype genResult = GenId string | GenErr error | NilPanic

text \<open>
  \<open>newFunc\<close> is a package variable (\<open>New\<close> unless replaced), read at each call, so it
  is a parameter; it returns an error or a generator. \<open>cfgs\<close> is the variadic
  argument list.
  \<^verbatim>\<open>
  if len(cfgs) == 0 {
      defaultGenOnce.Do(func() { defaultGen, defaultGenErr = newFunc(nil) })
      if defaultGenErr != nil { return "", defaultGenErr }
      return defaultGen.Next(), nil
  }
  g, err := newFunc(cfgs[0])
  if err != nil { return "", err }
  return g.Next(), nil
  \<close>
\<close>

definition onceDo :: "(Config option \<Rightarrow> error + Generator) \<Rightarrow> Pkg \<Rightarrow> Pkg" where
  "onceDo newFunc p =
     (if defaultGenOnce p then p
      else (case newFunc None of
              Inl err \<Rightarrow> p\<lparr>defaultGen := None, defaultGenErr := Some err, defaultGenOnce := True\<rparr>
            | Inr g \<Rightarrow> p\<lparr>defaultGen := Some g, defaultGenErr := None, defaultGenOnce := True\<rparr>))"

definition Gen ::
  "(Config option \<Rightarrow> error + Generator) \<Rightarrow> Pkg \<Rightarrow> (nat \<Rightarrow> 64 word) \<Rightarrow> nat \<Rightarrow>
   Config option list \<Rightarrow> (genResult \<times> Pkg \<times> nat) option" where
  "Gen newFunc p nowFunc k cfgs =
     (case cfgs of
        [] \<Rightarrow>
          (let p1 = onceDo newFunc p in
           case defaultGenErr p1 of
             Some err \<Rightarrow> Some (GenErr err, p1, k)
           | None \<Rightarrow>
               (case defaultGen p1 of
                  None \<Rightarrow> Some (NilPanic, p1, k)
                | Some g \<Rightarrow>
                    (case Next g nowFunc k of
                       None \<Rightarrow> None
                     | Some (s, g', k') \<Rightarrow> Some (GenId s, p1\<lparr>defaultGen := Some g'\<rparr>, k'))))
      | cfg # _ \<Rightarrow>
          (case newFunc cfg of
             Inl err \<Rightarrow> Some (GenErr err, p, k)
           | Inr g \<Rightarrow>
               (case Next g nowFunc k of
                  None \<Rightarrow> None
                | Some (s, g', k') \<Rightarrow> Some (GenId s, p, k'))))"

subsection \<open>Scenarios\<close>

text \<open>
  The generator that \<open>New\<close> returns for \<^verbatim>\<open>&Config{ShardID: 1}\<close>, as the tests
  construct it.
\<close>

definition shard1Gen :: Generator where
  "shard1Gen = \<lparr>lastMs = 0, seq = 0, shard = 1, baseEpoch = defaultEpochMs\<rparr>"

text \<open>
  Two clocks, given by their readings relative to the default epoch. Both stay at
  tick 5 long enough to exhaust the sequence, read tick 6 once (the reading that ends
  the spin-wait) and then read tick 4: the wall clock was set back by 2 ms between two
  readings. \<open>reissueClock\<close> starts with one reading at tick 4.
\<close>

definition rolloverClock :: "nat \<Rightarrow> 64 word" where
  "rolloverClock k =
     defaultEpochMs + (if k \<le> 32768 then 5 else if k = 32769 then 6 else 4)"

definition reissueClock :: "nat \<Rightarrow> 64 word" where
  "reissueClock k =
     defaultEpochMs + (if k = 0 then 4 else if k \<le> 32769 then 5 else if k = 32770 then 6 else 4)"

section \<open>Properties\<close>


subsection \<open>The rendering\<close>

lemma unat_and_63: "unat ((v :: 64 word) AND 63) = unat v mod 64"
proof -
  have "unat (take_bit 6 v) = unat v mod 2 ^ 6"
    by (simp add: take_bit_eq_mod unat_mod)
  then show ?thesis
    by (simp add: take_bit_eq_mask mask_eq_exp_minus_1)
qed

lemma unat_drop_6: "unat (drop_bit 6 (v :: 64 word)) = unat v div 64"
  by (simp add: drop_bit_eq_div unat_div)

lemma length_alphabet: "length alphabet = 64"
  by (simp add: alphabet_def)

lemma distinct_alphabet: "distinct alphabet"
  by (simp add: alphabet_def)

lemma encodeLoop_digs:
  "k \<le> length out \<Longrightarrow>
   encodeLoop k v out = map (\<lambda>d. alphabet ! d) (digs k (unat v)) @ drop k out"
proof (induction k arbitrary: v out)
  case 0
  then show ?case by simp
next
  case (Suc k)
  from Suc.prems have k: "k < length out" by simp
  have "encodeLoop (Suc k) v out =
        encodeLoop k (drop_bit 6 v) (out[k := alphabet ! unat (v AND 63)])"
    by simp
  also have "\<dots> = map (\<lambda>d. alphabet ! d) (digs k (unat (drop_bit 6 v)))
                    @ drop k (out[k := alphabet ! unat (v AND 63)])"
    using k by (intro Suc.IH) simp
  also have "drop k (out[k := alphabet ! unat (v AND 63)])
             = alphabet ! (unat v mod 64) # drop (Suc k) out"
    using k by (simp add: unat_and_63 Cons_nth_drop_Suc [symmetric])
  finally show ?case by (simp add: unat_drop_6)
qed

lemma encode_digs: "encode v = map (\<lambda>d. alphabet ! d) (digs 11 (unat v))"
  by (simp add: encode_def encodeLoop_digs)

lemma digs_length: "length (digs k n) = k"
  by (induction k arbitrary: n) auto

lemma digs_bound: "d \<in> set (digs k n) \<Longrightarrow> d < 64"
  by (induction k arbitrary: n) auto

lemma encode_length: "length (encode v) = 11"
  by (simp add: encode_digs digs_length)

lemma encode_chars: "set (encode v) \<subseteq> set alphabet"
  by (auto simp: encode_digs length_alphabet dest: digs_bound)

lemma Next_encode:
  "Next g clk k = Some (s, g', k') \<Longrightarrow> \<exists>v. nextVal g clk k = Some (v, g', k') \<and> s = encode v"
  by (auto simp: Next_def split: option.splits)


section \<open>Length and alphabet of the identifiers\<close>

text \<open>
  Claim C7. Every string returned by \<open>Next\<close> has exactly 11 characters, each of them a
  character of the 64-symbol alphabet \<open>A-Z\<close>, \<open>a-z\<close>, \<open>0-9\<close>, \<open>-\<close>, \<open>_\<close>, whose
  index 0 is \<open>A\<close> and whose index 63 is \<open>_\<close>.
\<close>

theorem Next_length_and_alphabet:
  "Next g nowFunc k = Some (s, g', k') \<Longrightarrow>
   length s = 11 \<and> set s \<subseteq> set alphabet \<and> length alphabet = 64 \<and>
   alphabet = ''ABCDEFGHIJKLMNOPQRSTUVWXYZabcdefghijklmnopqrstuvwxyz0123456789-_'' \<and>
   alphabet ! 0 = CHR ''A'' \<and> alphabet ! 63 = CHR ''_''"
proof -
  assume "Next g nowFunc k = Some (s, g', k')"
  then obtain v where "s = encode v" by (auto dest: Next_encode)
  then have "length s = 11" "set s \<subseteq> set alphabet"
    by (simp_all add: encode_length encode_chars)
  moreover have "alphabet ! 0 = CHR ''A''" "alphabet ! 63 = CHR ''_''"
    by (simp_all add: alphabet_def)
  ultimately show ?thesis
    by (simp add: length_alphabet) (simp add: alphabet_def)
qed

text \<open>
  A generator with shard 1 and the default epoch, the clock 5 ms after the epoch.
\<close>

lemma Next_eval1:
  "Next \<lparr>lastMs = 0, seq = 0, shard = 1, baseEpoch = defaultEpochMs\<rparr> (\<lambda>_. defaultEpochMs + 5) 0 =
     Some (''AAAAAAKAIAA'', \<lparr>lastMs = 5, seq = 0, shard = 1, baseEpoch = defaultEpochMs\<rparr>, 1)"
  by code_simp


theorem Next_length_and_alphabet_witness:
  "Next \<lparr>lastMs = 0, seq = 0, shard = 1, baseEpoch = defaultEpochMs\<rparr>
        (\<lambda>_. defaultEpochMs + 5) 0 =
     Some (''AAAAAAKAIAA'', \<lparr>lastMs = 5, seq = 0, shard = 1, baseEpoch = defaultEpochMs\<rparr>, 1) \<and>
   length ''AAAAAAKAIAA'' = 11 \<and> set ''AAAAAAKAIAA'' \<subseteq> set alphabet"
  using Next_length_and_alphabet [OF Next_eval1] Next_eval1 by simp

subsection \<open>Order of the encoded strings\<close>

lemma indexOf_nth: "distinct xs \<Longrightarrow> i < length xs \<Longrightarrow> indexOf (xs ! i) xs = i"
proof (induction xs arbitrary: i)
  case Nil
  then show ?case by simp
next
  case (Cons x xs)
  then show ?case by (cases i) auto
qed

lemma alphaIndex_nth: "d < 64 \<Longrightarrow> alphaIndex (alphabet ! d) = d"
  unfolding alphaIndex_def
  by (rule indexOf_nth) (simp_all add: distinct_alphabet length_alphabet)

lemma lexLess_snoc:
  "length xs = length ys \<Longrightarrow>
   lexLess (xs @ [a]) (ys @ [b]) \<longleftrightarrow>
     lexLess xs ys \<or> (map alphaIndex xs = map alphaIndex ys \<and> alphaIndex a < alphaIndex b)"
  by (induction xs ys rule: list_induct2) auto

lemma lex_step_arith:
  fixes a a' r r' :: nat
  assumes "r < 64" "r' < 64"
  shows "64 * a + r < 64 * a' + r' \<longleftrightarrow> a < a' \<or> (a = a' \<and> r < r')"
    and "64 * a + r = 64 * a' + r' \<longleftrightarrow> a = a' \<and> r = r'"
proof -
  consider "a < a'" | "a = a'" | "a' < a" by linarith
  then show "64 * a + r < 64 * a' + r' \<longleftrightarrow> a < a' \<or> (a = a' \<and> r < r')"
  proof cases
    case 1
    then have "64 * a + 64 \<le> 64 * a'" by linarith
    with 1 assms show ?thesis by linarith
  next
    case 2
    then show ?thesis by simp
  next
    case 3
    then have "64 * a' + 64 \<le> 64 * a" by linarith
    with 3 assms show ?thesis by linarith
  qed
  consider "a < a'" | "a = a'" | "a' < a" by linarith
  then show "64 * a + r = 64 * a' + r' \<longleftrightarrow> a = a' \<and> r = r'"
  proof cases
    case 1
    then have "64 * a + 64 \<le> 64 * a'" by linarith
    with 1 assms show ?thesis by linarith
  next
    case 2
    then show ?thesis by simp
  next
    case 3
    then have "64 * a' + 64 \<le> 64 * a" by linarith
    with 3 assms show ?thesis by linarith
  qed
qed

lemma digs_order:
  "(lexLess (map (\<lambda>d. alphabet ! d) (digs k m)) (map (\<lambda>d. alphabet ! d) (digs k n))
      \<longleftrightarrow> m mod 64 ^ k < n mod 64 ^ k) \<and>
   (map alphaIndex (map (\<lambda>d. alphabet ! d) (digs k m))
      = map alphaIndex (map (\<lambda>d. alphabet ! d) (digs k n))
      \<longleftrightarrow> m mod 64 ^ k = n mod 64 ^ k)"
proof (induction k arbitrary: m n)
  case 0
  then show ?case by simp
next
  case (Suc k)
  have split: "x mod 64 ^ Suc k = 64 * (x div 64 mod 64 ^ k) + x mod 64" for x :: nat
    by (simp add: mod_mult2_eq)
  have r: "m mod 64 < 64" "n mod 64 < 64" by simp_all
  show ?case
    using Suc.IH [of "m div 64" "n div 64"]
    by (simp only: digs.simps map_append list.map lexLess_snoc length_map digs_length
          split lex_step_arith [OF r] alphaIndex_nth [OF r(1)] alphaIndex_nth [OF r(2)])
       auto
qed

lemma unat_lt_64_11: "unat (v :: 64 word) < 64 ^ 11"
proof -
  have "unat v < 2 ^ 64" using unsigned_less [of v] by simp
  then show ?thesis by simp
qed

lemma encode_less_iff: "u < v \<longleftrightarrow> lexLess (encode u) (encode v)"
  using digs_order [of 11 "unat u" "unat v"] unat_lt_64_11 [of u] unat_lt_64_11 [of v]
  by (simp add: encode_digs word_less_nat_alt)

lemma encode_inj: "encode u = encode v \<longleftrightarrow> u = v"
proof
  assume "encode u = encode v"
  then have "unat u mod 64 ^ 11 = unat v mod 64 ^ 11"
    using digs_order [of 11 "unat u" "unat v"] by (simp add: encode_digs)
  then show "u = v"
    using unat_lt_64_11 [of u] unat_lt_64_11 [of v] by (simp add: word_unat_eq_iff)
qed simp

subsection \<open>The packed value as a number\<close>

lemma or_fields_nat:
  fixes T S Q :: nat
  assumes "S < 2 ^ 10" "Q < 2 ^ 15"
  shows "push_bit 25 T OR push_bit 15 S OR Q = T * 2 ^ 25 + S * 2 ^ 15 + Q"
proof -
  have S: "take_bit 10 S = S" and Q: "take_bit 15 Q = Q"
    using assms by (simp_all add: take_bit_nat_eq_self)
  have "\<not> bit (push_bit 15 S) n \<or> \<not> bit (take_bit 15 Q) n" for n
    by (auto simp: bit_push_bit_iff bit_take_bit_iff)
  then have 1: "push_bit 15 S + Q = push_bit 15 S OR Q"
    unfolding Q by (rule disjunctive_add)
  have "\<not> bit (push_bit 25 T) n \<or> \<not> bit (push_bit 15 (take_bit 10 S) OR take_bit 15 Q) n" for n
    by (auto simp: bit_push_bit_iff bit_take_bit_iff bit_or_iff)
  then have 2: "push_bit 25 T + (push_bit 15 S OR Q) = push_bit 25 T OR (push_bit 15 S OR Q)"
    unfolding S Q by (rule disjunctive_add)
  show ?thesis
    using 1 2 by (simp add: push_bit_eq_mult or.assoc)
qed

lemma unat_pack:
  assumes "sh \<le> 1023" "sq < 2 ^ 15"
  shows "unat (pack t sh sq) = (unat t mod 2 ^ 39) * 2 ^ 25 + unat sh * 2 ^ 15 + unat sq"
proof -
  have sh: "unat sh < 2 ^ 10" using assms(1) by (simp add: word_le_nat_alt)
  have sq: "unat sq < 2 ^ 15" using assms(2) by (simp add: word_less_nat_alt)
  have t: "take_bit 64 (push_bit 25 (unat t)) = push_bit 25 (unat t mod 2 ^ 39)"
  proof -
    have "(unat t * 2 ^ 25) mod (2 ^ 39 * 2 ^ 25) = (unat t mod 2 ^ 39) * 2 ^ 25"
      by (rule mult_mod_left [symmetric])
    then show ?thesis
      by (simp add: take_bit_eq_mod push_bit_eq_mult)
  qed
  have s: "take_bit 64 (push_bit 15 (unat sh)) = push_bit 15 (unat sh)"
    using sh by (simp add: take_bit_push_bit take_bit_nat_eq_self)
  have "unat sh < 2 ^ 64" "unat sq < 2 ^ 64" using sh sq by simp_all
  then have a: "take_bit 64 (unat sh) = unat sh" and b: "take_bit 64 (unat sq) = unat sq"
    by (simp_all only: take_bit_nat_eq_self)
  have "unat (pack t sh sq) =
        push_bit 25 (unat t mod 2 ^ 39) OR push_bit 15 (unat sh) OR unat sq"
    unfolding pack_def
    by (simp add: unsigned_or_eq unsigned_push_bit_eq unsigned_ucast_eq t s a b)
  then show ?thesis
    using or_fields_nat [OF sh sq] by simp
qed

lemma pack_less:
  assumes sh: "sh \<le> 1023" and q: "q1 < 2 ^ 15" "q2 < 2 ^ 15"
    and t: "t1 < 2 ^ 39" "t2 < 2 ^ 39"
    and lt: "t1 < t2 \<or> (t1 = t2 \<and> q1 < q2)"
  shows "pack t1 sh q1 < pack t2 sh q2"
proof -
  have T: "unat t1 < 2 ^ 39" "unat t2 < 2 ^ 39"
    using t by (simp_all add: word_less_nat_alt)
  have Q: "unat q1 < 2 ^ 15" "unat q2 < 2 ^ 15"
    using q by (simp_all add: word_less_nat_alt)
  from lt have "unat t1 < unat t2 \<or> (unat t1 = unat t2 \<and> unat q1 < unat q2)"
    by (auto simp: word_less_nat_alt)
  then have "unat t1 * 2 ^ 25 + unat q1 < unat t2 * 2 ^ 25 + unat q2"
    using Q by auto
  then show ?thesis
    using T by (simp add: word_less_nat_alt unat_pack [OF sh q(1)] unat_pack [OF sh q(2)])
qed

lemma sint_small: "(x :: 64 word) < 2 ^ 39 \<Longrightarrow> sint x = int (unat x)"
proof -
  assume "x < 2 ^ 39"
  then have "unat x < 2 ^ 39" by (simp add: word_less_nat_alt)
  then have "int (unat x) < int (2 ^ 39)" by (simp only: of_nat_less_iff)
  then have "int (unat x) < 2 ^ 39" by simp
  also have "(2 :: int) ^ 39 < 2 ^ 63" by simp
  finally have hi: "int (unat x) < 2 ^ 63" .
  have "- (2 ^ 63) \<le> (0 :: int)" by simp
  also have "0 \<le> int (unat x)" by (rule of_nat_0_le_iff)
  finally have lo: "- (2 ^ 63) \<le> int (unat x)" .
  have "signed_take_bit 63 (int (unat x)) = int (unat x)"
    using lo hi by (rule signed_take_bit_int_eq_self)
  then show ?thesis by (simp add: sint_uint)
qed

subsection \<open>The critical section\<close>

lemma nextVal_normal:
  "\<not> rollsOver g clk k \<Longrightarrow>
   nextVal g clk k =
     Some (pack (max64 (clk k - baseEpoch g) (lastMs g)) (shard g)
             (if max64 (clk k - baseEpoch g) (lastMs g) = lastMs g then seq g + 1 else 0),
           g\<lparr>seq := (if max64 (clk k - baseEpoch g) (lastMs g) = lastMs g then seq g + 1 else 0),
             lastMs := max64 (clk k - baseEpoch g) (lastMs g)\<rparr>,
           Suc k)"
  by (auto simp: nextVal_def rollsOver_def Let_def not_le)

lemma nextVal_state:
  "nextVal g clk k = Some (v, g', k') \<Longrightarrow>
   v = pack (lastMs g') (shard g') (seq g') \<and> shard g' = shard g \<and>
   baseEpoch g' = baseEpoch g \<and> seq g' < 2 ^ 15"
  by (auto simp: nextVal_def Let_def not_le split: if_splits option.splits)

lemma seq_succ_less: "(q :: 16 word) < 2 ^ 15 \<Longrightarrow> q < q + 1"
proof -
  assume "q < 2 ^ 15"
  then have "unat q < 2 ^ 15" by (simp add: word_less_nat_alt)
  then have "unat q + unat (1 :: 16 word) < 2 ^ LENGTH(16)" by simp
  then have "unat (q + 1) = unat q + unat (1 :: 16 word)"
    by (simp only: unat_add_lem [THEN iffD1])
  then show ?thesis by (simp add: word_less_nat_alt)
qed

lemma max64_cases:
  "max64 a b = b \<or> (max64 a b = a \<and> b <s a)"
  by (auto simp: max64_def word_sless_alt word_sle_eq)

lemma normal_step_increases:
  assumes nr: "\<not> rollsOver g clk k"
    and q: "seq g < 2 ^ 15"
    and r: "lastMs g < 2 ^ 39" "max64 (clk k - baseEpoch g) (lastMs g) < 2 ^ 39"
  defines "t \<equiv> max64 (clk k - baseEpoch g) (lastMs g)"
  defines "q' \<equiv> (if t = lastMs g then seq g + 1 else 0)"
  shows "q' < 2 ^ 15 \<and> (lastMs g < t \<or> (lastMs g = t \<and> seq g < q'))"
proof (cases "t = lastMs g")
  case True
  with nr have "\<not> 2 ^ 15 \<le> seq g + 1" by (simp add: rollsOver_def t_def)
  with True q show ?thesis by (simp add: q'_def not_le seq_succ_less)
next
  case False
  with max64_cases [of "clk k - baseEpoch g" "lastMs g"] have "lastMs g <s t"
    by (auto simp: t_def)
  then have "sint (lastMs g) < sint t" by (simp add: word_sless_alt)
  with r have "lastMs g < t"
    by (simp add: sint_small t_def word_less_def)
  with False show ?thesis by (simp add: q'_def)
qed

section \<open>Order of the encoded strings and order of issuance\<close>

text \<open>
  Claim C2, as amended. The rendering is an order-preserving injection of the 64-bit
  values into the strings of 11 characters: \<open>u < v\<close> if and only if \<open>encode u\<close> is
  lexicographically less than \<open>encode v\<close> when characters are compared by their alphabet
  index, and equal strings come from equal values. For one generator whose shard is at
  most 1023, the string of an identifier is less than the string of the identifier
  issued by the next call, provided the next call does not take the sequence-rollover
  branch and both ticks lie in the 39 bits of the tick field (\<open>lastMs < 2 ^ 39\<close>).
\<close>

theorem encode_order_preserving:
  "(u < v \<longleftrightarrow> lexLess (encode u) (encode v)) \<and>
   (encode u = encode v \<longleftrightarrow> u = v) \<and>
   (Next g nowFunc k = Some (s1, g1, k1) \<and> Next g1 nowFunc k1 = Some (s2, g2, k2) \<and>
    shard g \<le> 1023 \<and> \<not> rollsOver g1 nowFunc k1 \<and> lastMs g1 < 2 ^ 39 \<and> lastMs g2 < 2 ^ 39
    \<longrightarrow> lexLess s1 s2)"
proof (intro conjI impI)
  show "u < v \<longleftrightarrow> lexLess (encode u) (encode v)" by (rule encode_less_iff)
  show "encode u = encode v \<longleftrightarrow> u = v" by (rule encode_inj)
next
  assume a: "Next g nowFunc k = Some (s1, g1, k1) \<and> Next g1 nowFunc k1 = Some (s2, g2, k2) \<and>
    shard g \<le> 1023 \<and> \<not> rollsOver g1 nowFunc k1 \<and> lastMs g1 < 2 ^ 39 \<and> lastMs g2 < 2 ^ 39"
  from a obtain v1 where v1: "nextVal g nowFunc k = Some (v1, g1, k1)" "s1 = encode v1"
    by (auto dest: Next_encode)
  from a obtain v2 where v2: "nextVal g1 nowFunc k1 = Some (v2, g2, k2)" "s2 = encode v2"
    by (auto dest: Next_encode)
  from nextVal_state [OF v1(1)] a
  have g1: "v1 = pack (lastMs g1) (shard g1) (seq g1)" "shard g1 \<le> 1023" "seq g1 < 2 ^ 15"
    by simp_all
  define t where "t = max64 (nowFunc k1 - baseEpoch g1) (lastMs g1)"
  define q where "q = (if t = lastMs g1 then seq g1 + 1 else 0)"
  from a have nr: "\<not> rollsOver g1 nowFunc k1" by simp
  from nextVal_normal [OF nr] v2(1)
  have g2: "v2 = pack t (shard g1) q" "lastMs g2 = t"
    by (auto simp: t_def q_def)
  with a have t: "t < 2 ^ 39" by simp
  from a have l1: "lastMs g1 < 2 ^ 39" by simp
  from normal_step_increases [OF nr g1(3) l1] t
  have "q < 2 ^ 15" "lastMs g1 < t \<or> (lastMs g1 = t \<and> seq g1 < q)"
    by (simp_all add: t_def q_def)
  with g1 l1 t have "pack (lastMs g1) (shard g1) (seq g1) < pack t (shard g1) q"
    by (intro pack_less) simp_all
  with g1 g2 v1 v2 show "lexLess s1 s2"
    by (simp add: encode_less_iff)
qed


text \<open>Two calls at the same reading of the clock, 5 ms after the default epoch.\<close>

lemma two_ids_eval:
  "Next \<lparr>lastMs = 0, seq = 0, shard = 1, baseEpoch = defaultEpochMs\<rparr>
        (\<lambda>_. defaultEpochMs + 5) 0 =
     Some (''AAAAAAKAIAA'', \<lparr>lastMs = 5, seq = 0, shard = 1, baseEpoch = defaultEpochMs\<rparr>, 1)"
  "Next \<lparr>lastMs = 5, seq = 0, shard = 1, baseEpoch = defaultEpochMs\<rparr>
        (\<lambda>_. defaultEpochMs + 5) 1 =
     Some (''AAAAAAKAIAB'', \<lparr>lastMs = 5, seq = 1, shard = 1, baseEpoch = defaultEpochMs\<rparr>, 2)"
  "\<not> rollsOver \<lparr>lastMs = 5, seq = 0, shard = 1, baseEpoch = defaultEpochMs\<rparr>
        (\<lambda>_. defaultEpochMs + 5) 1"
  by code_simp+

theorem encode_order_preserving_witness:
  "(1 :: 64 word) < 2 \<and> lexLess (encode 1) (encode 2) \<and>
   Next \<lparr>lastMs = 0, seq = 0, shard = 1, baseEpoch = defaultEpochMs\<rparr>
        (\<lambda>_. defaultEpochMs + 5) 0 =
     Some (''AAAAAAKAIAA'', \<lparr>lastMs = 5, seq = 0, shard = 1, baseEpoch = defaultEpochMs\<rparr>, 1) \<and>
   Next \<lparr>lastMs = 5, seq = 0, shard = 1, baseEpoch = defaultEpochMs\<rparr>
        (\<lambda>_. defaultEpochMs + 5) 1 =
     Some (''AAAAAAKAIAB'', \<lparr>lastMs = 5, seq = 1, shard = 1, baseEpoch = defaultEpochMs\<rparr>, 2) \<and>
   \<not> rollsOver \<lparr>lastMs = 5, seq = 0, shard = 1, baseEpoch = defaultEpochMs\<rparr>
        (\<lambda>_. defaultEpochMs + 5) 1 \<and>
   lexLess ''AAAAAAKAIAA'' ''AAAAAAKAIAB''"
  using encode_order_preserving
    [of 1 2 "\<lparr>lastMs = 0, seq = 0, shard = 1, baseEpoch = defaultEpochMs\<rparr>"
        "\<lambda>_. defaultEpochMs + 5" 0 "''AAAAAAKAIAA''"
        "\<lparr>lastMs = 5, seq = 0, shard = 1, baseEpoch = defaultEpochMs\<rparr>" 1 "''AAAAAAKAIAB''"
        "\<lparr>lastMs = 5, seq = 1, shard = 1, baseEpoch = defaultEpochMs\<rparr>" 2]
    two_ids_eval
  by simp

text \<open>
  The claim as stated fails where the tick leaves the 39 bits of its field: with the
  epoch 2009-01-01 (1230768000000) and a clock that advances by 1 ms from
  1780523813887, the first identifier has tick \<open>2 ^ 39 - 1\<close>, the second has tick
  \<open>2 ^ 39\<close>, which line 163 shifts out of the 64 bits, and the string issued second is
  the smaller one.
\<close>

theorem issuance_order_counterexample:
  "New \<lparr>ifacesFunc = [], hostFunc = None, randFunc = None\<rparr>
       (Some \<lparr>ShardID = 1, CustomEpochMs = 1230768000000\<rparr>) =
     Inr \<lparr>lastMs = 0, seq = 0, shard = 1, baseEpoch = 1230768000000\<rparr> \<and>
   Next \<lparr>lastMs = 0, seq = 0, shard = 1, baseEpoch = 1230768000000\<rparr>
        (\<lambda>k. 1780523813887 + of_nat k) 0 =
     Some (''P_____-AIAA'',
           \<lparr>lastMs = 549755813887, seq = 0, shard = 1, baseEpoch = 1230768000000\<rparr>, 1) \<and>
   Next \<lparr>lastMs = 549755813887, seq = 0, shard = 1, baseEpoch = 1230768000000\<rparr>
        (\<lambda>k. 1780523813887 + of_nat k) 1 =
     Some (''AAAAAAAAIAA'',
           \<lparr>lastMs = 549755813888, seq = 0, shard = 1, baseEpoch = 1230768000000\<rparr>, 2) \<and>
   lexLess ''AAAAAAAAIAA'' ''P_____-AIAA'' \<and>
   \<not> lexLess ''P_____-AIAA'' ''AAAAAAAAIAA''"
  by code_simp

section \<open>Sequential calls and the sequence rollover\<close>

lemma issue_append:
  "issue (m + n) g clk k =
     (case issue m g clk k of
        None \<Rightarrow> None
      | Some (xs, g', k') \<Rightarrow>
          (case issue n g' clk k' of
             None \<Rightarrow> None
           | Some (ys, g'', k'') \<Rightarrow> Some (xs @ ys, g'', k'')))"
  by (induction m arbitrary: g k) (auto split: option.splits)

lemma unat_seq_succ: "unat (q :: 16 word) < 2 ^ 15 - 1 \<Longrightarrow> unat (q + 1) = unat q + 1"
proof -
  assume "unat q < 2 ^ 15 - 1"
  then have "unat q + unat (1 :: 16 word) < 2 ^ LENGTH(16)" by simp
  then have "unat (q + 1) = unat q + unat (1 :: 16 word)"
    by (simp only: unat_add_lem [THEN iffD1])
  then show ?thesis by simp
qed

lemma Next_same_tick:
  assumes "clk k - baseEpoch g = lastMs g" "unat (seq g) < 2 ^ 15 - 1"
  shows "Next g clk k = Some (encode (pack (lastMs g) (shard g) (seq g + 1)), g\<lparr>seq := seq g + 1\<rparr>, Suc k)"
proof -
  have "unat (seq g + 1) < 2 ^ 15" using assms(2) by (simp add: unat_seq_succ)
  then have "\<not> 2 ^ 15 \<le> seq g + 1" by (simp add: word_le_nat_alt)
  then show ?thesis
    using assms(1) by (simp add: Next_def nextVal_def max64_def Let_def)
qed

lemma issue_frozen:
  assumes "\<And>j. j < n \<Longrightarrow> clk (k + j) - baseEpoch g = lastMs g"
    and "unat (seq g) + n < 2 ^ 15"
  shows "issue n g clk k =
    Some (map (\<lambda>j. encode (pack (lastMs g) (shard g) (seq g + of_nat (Suc j)))) [0..<n],
          g\<lparr>seq := seq g + of_nat n\<rparr>, k + n)"
  using assms
proof (induction n arbitrary: g k)
  case 0
  then show ?case by simp
next
  case (Suc n)
  have c0: "clk k - baseEpoch g = lastMs g" using Suc.prems(1) [of 0] by simp
  have q: "unat (seq g) < 2 ^ 15 - 1" using Suc.prems(2) by simp
  let ?g = "g\<lparr>seq := seq g + 1\<rparr>"
  have step: "Next g clk k = Some (encode (pack (lastMs g) (shard g) (seq g + 1)), ?g, Suc k)"
    using c0 q by (rule Next_same_tick)
  have "issue n ?g clk (Suc k) =
    Some (map (\<lambda>j. encode (pack (lastMs ?g) (shard ?g) (seq ?g + of_nat (Suc j)))) [0..<n],
          ?g\<lparr>seq := seq ?g + of_nat n\<rparr>, Suc k + n)"
  proof (rule Suc.IH)
    fix j assume "j < n"
    then show "clk (Suc k + j) - baseEpoch ?g = lastMs ?g"
      using Suc.prems(1) [of "Suc j"] by simp
  next
    show "unat (seq ?g) + n < 2 ^ 15"
      using Suc.prems(2) q by (simp add: unat_seq_succ)
  qed
  then show ?case
    using step by (simp add: upt_rec [of 0 "Suc n"] map_Suc_upt [symmetric] add.assoc del: upt_Suc)
qed

subsection \<open>The spin-wait and the rollover branch\<close>

text \<open>
  The spin-wait returns right after the first reading that exceeds the last tick, and
  never returns when no reading does; the rollover branch then issues sequence 0 with
  the tick of one more reading.
\<close>

lemma spinUntilNextMs_returns:
  assumes "lastTick + 1 \<le>s clk (k + n) - epoch"
    and "\<And>j. j < n \<Longrightarrow> \<not> lastTick + 1 \<le>s clk (k + j) - epoch"
  shows "spinUntilNextMs epoch lastTick clk k = Some (Suc (k + n))"
  using assms
proof (induction n arbitrary: k)
  case 0
  then show ?case by (subst spinUntilNextMs.simps) simp
next
  case (Suc n)
  have "\<not> lastTick + 1 \<le>s clk k - epoch" using Suc.prems(2) [of 0] by simp
  then have "spinUntilNextMs epoch lastTick clk k = spinUntilNextMs epoch lastTick clk (Suc k)"
    by (subst spinUntilNextMs.simps) simp
  also have "\<dots> = Some (Suc (Suc k + n))"
  proof (rule Suc.IH)
    show "lastTick + 1 \<le>s clk (Suc k + n) - epoch" using Suc.prems(1) by simp
    fix j assume "j < n"
    then show "\<not> lastTick + 1 \<le>s clk (Suc k + j) - epoch"
      using Suc.prems(2) [of "Suc j"] by simp
  qed
  finally show ?case by simp
qed

lemma spinUntilNextMs_Some:
  assumes "spinUntilNextMs epoch lastTick clk k = Some y"
  shows "\<exists>j. k \<le> j \<and> y = Suc j \<and> lastTick + 1 \<le>s clk j - epoch"
proof (rule spinUntilNextMs.raw_induct
    [where P = "\<lambda>e l c k y. \<exists>j. k \<le> j \<and> y = Suc j \<and> l + 1 \<le>s c j - e", OF _ assms])
  fix f e l c k y
  assume IH: "\<And>e l c k y. f e l c k = Some y \<Longrightarrow>
               \<exists>j. k \<le> j \<and> y = Suc j \<and> l + 1 \<le>s c j - e"
    and body: "(if l + 1 \<le>s c k - e then Some (Suc k) else f e l c (Suc k)) = Some y"
  show "\<exists>j. k \<le> j \<and> y = Suc j \<and> l + 1 \<le>s c j - e"
  proof (cases "l + 1 \<le>s c k - e")
    case True
    with body have "y = Suc k" by simp
    with True show ?thesis by (intro exI [of _ k]) simp
  next
    case False
    with body have a: "f e l c (Suc k) = Some y" by simp
    from IH [OF a] obtain j where j: "Suc k \<le> j" "y = Suc j" "l + 1 \<le>s c j - e"
      by (elim exE conjE)
    then show ?thesis by (intro exI [of _ j]) simp
  qed
qed

lemma spinUntilNextMs_never:
  assumes "\<And>j. \<not> lastTick + 1 \<le>s clk j - epoch"
  shows "spinUntilNextMs epoch lastTick clk k = None"
proof (rule ccontr)
  assume "spinUntilNextMs epoch lastTick clk k \<noteq> None"
  then obtain y where "spinUntilNextMs epoch lastTick clk k = Some y" by auto
  from spinUntilNextMs_Some [OF this] obtain j where "lastTick + 1 \<le>s clk j - epoch"
    by (elim exE conjE)
  with assms [of j] show False by simp
qed

lemma nextVal_rollover:
  assumes "rollsOver g clk k"
    and "spinUntilNextMs (baseEpoch g) (lastMs g) clk (Suc k) = Some k'"
  shows "nextVal g clk k =
     Some (pack (clk k' - baseEpoch g) (shard g) 0,
           g\<lparr>seq := 0, lastMs := clk k' - baseEpoch g\<rparr>, Suc k')"
  using assms by (simp add: nextVal_def rollsOver_def Let_def)

lemma nextVal_blocks:
  assumes "rollsOver g clk k" and "\<And>j. \<not> lastMs g + 1 \<le>s clk j - baseEpoch g"
  shows "nextVal g clk k = None"
  using assms(1) spinUntilNextMs_never [of "lastMs g" clk "baseEpoch g" "Suc k", OF assms(2)]
  by (simp add: nextVal_def rollsOver_def Let_def)

subsection \<open>The call after 32768 identifiers in one tick\<close>

lemma shard1Gen_simps:
  "lastMs shard1Gen = 0" "seq shard1Gen = 0" "shard shard1Gen = 1"
  "baseEpoch shard1Gen = defaultEpochMs"
  by (simp_all add: shard1Gen_def)

lemma fields_eval:
  "tickField (pack 4 1 0) = 4" "seqField (pack 4 1 0) = 0"
  "tickField (pack 5 1 32767) = 5" "seqField (pack 5 1 32767) = 32767"
  by (simp_all add: tickField_def seqField_def pack_def)

lemma rollover_spin: "spinUntilNextMs defaultEpochMs 5 rolloverClock 32769 = Some 32770"
  by (subst spinUntilNextMs.simps) (simp add: rolloverClock_def word_sle_eq)

lemma rollover_rolls: "rollsOver (shard1Gen\<lparr>lastMs := 5, seq := 32767\<rparr>) rolloverClock 32768"
  by (simp add: rollsOver_def rolloverClock_def shard1Gen_def max64_def)

lemma rollover_last:
  "nextVal (shard1Gen\<lparr>lastMs := 5, seq := 32767\<rparr>) rolloverClock 32768 =
     Some (pack 4 1 0, shard1Gen\<lparr>lastMs := 4, seq := 0\<rparr>, 32771)"
proof -
  have "rolloverClock 32768 - defaultEpochMs = 5" "rolloverClock 32770 - defaultEpochMs = 4"
    by (simp_all add: rolloverClock_def)
  then show ?thesis
    using rollover_spin
    by (simp add: nextVal_def Let_def max64_def shard1Gen_def)
qed


lemma rollover_first:
  "Next shard1Gen rolloverClock 0 =
     Some (encode (pack 5 1 0), shard1Gen\<lparr>lastMs := 5\<rparr>, Suc 0)"
  by (simp add: Next_def nextVal_def Let_def max64_def shard1Gen_def rolloverClock_def
        word_sle_eq)

lemma rollover_frozen:
  "issue 32767 (shard1Gen\<lparr>lastMs := 5\<rparr>) rolloverClock (Suc 0) =
     Some (map (\<lambda>j. encode (pack 5 1 (of_nat (Suc j)))) [0..<32767],
           shard1Gen\<lparr>lastMs := 5, seq := 32767\<rparr>, 32768)"
proof -
  have "issue 32767 (shard1Gen\<lparr>lastMs := 5\<rparr>) rolloverClock (Suc 0) =
     Some (map (\<lambda>j. encode (pack (lastMs (shard1Gen\<lparr>lastMs := 5\<rparr>))
                   (shard (shard1Gen\<lparr>lastMs := 5\<rparr>))
                   (seq (shard1Gen\<lparr>lastMs := 5\<rparr>) + of_nat (Suc j)))) [0..<32767],
           shard1Gen\<lparr>lastMs := 5\<rparr>\<lparr>seq := seq (shard1Gen\<lparr>lastMs := 5\<rparr>) + of_nat 32767\<rparr>,
           Suc 0 + 32767)"
    by (rule issue_frozen) (simp_all add: rolloverClock_def shard1Gen_def)
  then show ?thesis by (simp add: shard1Gen_def)
qed

text \<open>
  Claim C3, on the clock \<open>rolloverClock\<close>. The first 32768 calls on the generator of
  shard 1 all read tick 5 and issue the sequence numbers 0 to 32767. The 32769th call
  takes the rollover branch and spins until a reading exceeds tick 5 (the reading of
  tick 6), but the identifier it issues carries the tick of the reading made after the
  spin-wait, which is 4: its sequence field is 0 and its tick field is less than the
  previous tick 5, not greater.
\<close>

theorem rollover_tick_not_greater:
  "issue 32768 shard1Gen rolloverClock 0 =
     Some (encode (pack 5 1 0) # map (\<lambda>j. encode (pack 5 1 (of_nat (Suc j)))) [0..<32767],
           shard1Gen\<lparr>lastMs := 5, seq := 32767\<rparr>, 32768) \<and>
   rollsOver (shard1Gen\<lparr>lastMs := 5, seq := 32767\<rparr>) rolloverClock 32768 \<and>
   spinUntilNextMs defaultEpochMs 5 rolloverClock 32769 = Some 32770 \<and>
   nextVal (shard1Gen\<lparr>lastMs := 5, seq := 32767\<rparr>) rolloverClock 32768 =
     Some (pack 4 1 0, shard1Gen\<lparr>lastMs := 4, seq := 0\<rparr>, 32771) \<and>
   seqField (pack 4 1 0) = 0 \<and> tickField (pack 4 1 0) = 4 \<and>
   tickField (pack 5 1 32767) = 5"
proof -
  have "issue 32768 shard1Gen rolloverClock 0 = issue (Suc 0 + 32767) shard1Gen rolloverClock 0"
    by simp
  also have "\<dots> =
     Some (encode (pack 5 1 0) # map (\<lambda>j. encode (pack 5 1 (of_nat (Suc j)))) [0..<32767],
           shard1Gen\<lparr>lastMs := 5, seq := 32767\<rparr>, 32768)"
    by (simp only: issue_append issue.simps rollover_first rollover_frozen
          option.case prod.case append_Cons append_Nil)
  finally show ?thesis
    by (simp only: rollover_last rollover_rolls rollover_spin fields_eval simp_thms)
qed

subsection \<open>An identifier issued twice\<close>

lemma reissue_first:
  "Next shard1Gen reissueClock 0 =
     Some (encode (pack 4 1 0), shard1Gen\<lparr>lastMs := 4\<rparr>, Suc 0)"
  by (simp add: Next_def nextVal_def Let_def max64_def shard1Gen_def reissueClock_def
        word_sle_eq)

lemma reissue_second:
  "Next (shard1Gen\<lparr>lastMs := 4\<rparr>) reissueClock (Suc 0) =
     Some (encode (pack 5 1 0), shard1Gen\<lparr>lastMs := 5\<rparr>, Suc (Suc 0))"
  by (simp add: Next_def nextVal_def Let_def max64_def shard1Gen_def reissueClock_def
        word_sle_eq)

lemma reissue_frozen:
  "issue 32767 (shard1Gen\<lparr>lastMs := 5\<rparr>) reissueClock (Suc (Suc 0)) =
     Some (map (\<lambda>j. encode (pack 5 1 (of_nat (Suc j)))) [0..<32767],
           shard1Gen\<lparr>lastMs := 5, seq := 32767\<rparr>, 32769)"
proof -
  have "issue 32767 (shard1Gen\<lparr>lastMs := 5\<rparr>) reissueClock (Suc (Suc 0)) =
     Some (map (\<lambda>j. encode (pack (lastMs (shard1Gen\<lparr>lastMs := 5\<rparr>))
                   (shard (shard1Gen\<lparr>lastMs := 5\<rparr>))
                   (seq (shard1Gen\<lparr>lastMs := 5\<rparr>) + of_nat (Suc j)))) [0..<32767],
           shard1Gen\<lparr>lastMs := 5\<rparr>\<lparr>seq := seq (shard1Gen\<lparr>lastMs := 5\<rparr>) + of_nat 32767\<rparr>,
           Suc (Suc 0) + 32767)"
    by (rule issue_frozen) (simp_all add: reissueClock_def shard1Gen_def)
  then show ?thesis by (simp add: shard1Gen_def)
qed

lemma reissue_spin: "spinUntilNextMs defaultEpochMs 5 reissueClock 32770 = Some 32771"
  by (subst spinUntilNextMs.simps) (simp add: reissueClock_def word_sle_eq)

lemma reissue_last:
  "Next (shard1Gen\<lparr>lastMs := 5, seq := 32767\<rparr>) reissueClock 32769 =
     Some (encode (pack 4 1 0), shard1Gen\<lparr>lastMs := 4, seq := 0\<rparr>, 32772)"
proof -
  have "reissueClock 32769 - defaultEpochMs = 5" "reissueClock 32771 - defaultEpochMs = 4"
    by (simp_all add: reissueClock_def)
  then show ?thesis
    using reissue_spin
    by (simp add: Next_def nextVal_def Let_def max64_def shard1Gen_def)
qed

text \<open>
  Claim C1, on the clock \<open>reissueClock\<close>. 32770 sequential calls on the generator of
  shard 1: the first reads tick 4, the next 32768 read tick 5, and the last one takes
  the rollover branch, spins until the reading of tick 6 and then reads tick 4. Its
  state pair goes from (5, 32767) to (4, 0), and the identifier it returns is the one
  returned by the first call: the 32770 identifiers are not pairwise distinct.
\<close>

theorem rollover_reissues_identifier:
  "issue 32769 shard1Gen reissueClock 0 =
     Some (encode (pack 4 1 0) # encode (pack 5 1 0) #
             map (\<lambda>j. encode (pack 5 1 (of_nat (Suc j)))) [0..<32767],
           shard1Gen\<lparr>lastMs := 5, seq := 32767\<rparr>, 32769) \<and>
   Next (shard1Gen\<lparr>lastMs := 5, seq := 32767\<rparr>) reissueClock 32769 =
     Some (encode (pack 4 1 0), shard1Gen\<lparr>lastMs := 4, seq := 0\<rparr>, 32772) \<and>
   issue 32770 shard1Gen reissueClock 0 =
     Some (encode (pack 4 1 0) # encode (pack 5 1 0) #
             map (\<lambda>j. encode (pack 5 1 (of_nat (Suc j)))) [0..<32767] @ [encode (pack 4 1 0)],
           shard1Gen\<lparr>lastMs := 4, seq := 0\<rparr>, 32772) \<and>
   \<not> distinct (encode (pack 4 1 0) # encode (pack 5 1 0) #
             map (\<lambda>j. encode (pack 5 1 (of_nat (Suc j)))) [0..<32767] @ [encode (pack 4 1 0)])"
proof -
  have "issue 32769 shard1Gen reissueClock 0 =
        issue (Suc 0 + (Suc 0 + 32767)) shard1Gen reissueClock 0"
    by simp
  also have "\<dots> =
     Some (encode (pack 4 1 0) # encode (pack 5 1 0) #
             map (\<lambda>j. encode (pack 5 1 (of_nat (Suc j)))) [0..<32767],
           shard1Gen\<lparr>lastMs := 5, seq := 32767\<rparr>, 32769)"
    by (simp only: issue_append issue.simps reissue_first reissue_second reissue_frozen
          option.case prod.case append_Cons append_Nil)
  finally have a: "issue 32769 shard1Gen reissueClock 0 =
     Some (encode (pack 4 1 0) # encode (pack 5 1 0) #
             map (\<lambda>j. encode (pack 5 1 (of_nat (Suc j)))) [0..<32767],
           shard1Gen\<lparr>lastMs := 5, seq := 32767\<rparr>, 32769)" .
  have "issue 32770 shard1Gen reissueClock 0 = issue (32769 + Suc 0) shard1Gen reissueClock 0"
    by simp
  also have "\<dots> =
     Some (encode (pack 4 1 0) # encode (pack 5 1 0) #
             map (\<lambda>j. encode (pack 5 1 (of_nat (Suc j)))) [0..<32767] @ [encode (pack 4 1 0)],
           shard1Gen\<lparr>lastMs := 4, seq := 0\<rparr>, 32772)"
    by (simp only: issue_append issue.simps a reissue_last
          option.case prod.case append_Cons append_Nil)
  finally have b: "issue 32770 shard1Gen reissueClock 0 =
     Some (encode (pack 4 1 0) # encode (pack 5 1 0) #
             map (\<lambda>j. encode (pack 5 1 (of_nat (Suc j)))) [0..<32767] @ [encode (pack 4 1 0)],
           shard1Gen\<lparr>lastMs := 4, seq := 0\<rparr>, 32772)" .
  have c: "\<not> distinct (encode (pack 4 1 0) # encode (pack 5 1 0) #
             map (\<lambda>j. encode (pack 5 1 (of_nat (Suc j)))) [0..<32767] @ [encode (pack 4 1 0)])"
    by simp
  from a b c reissue_last show ?thesis by (simp only: simp_thms)
qed

section \<open>Construction\<close>

lemma mask_3FF_le16: "((x :: 16 word) AND 0x3FF) \<le> 1023"
  by (rule word_and_le1)

lemma ucast_mask_3FF_le: "(ucast ((h :: 32 word) AND 0x3FF) :: 16 word) \<le> 1023"
proof -
  have "unat (h AND 0x3FF) \<le> unat (0x3FF :: 32 word)"
    by (rule word_and_le1 [THEN word_le_nat_alt [THEN iffD1]])
  then have le: "unat (h AND 0x3FF) \<le> 1023" by simp
  have "unat (ucast (h AND 0x3FF) :: 16 word) = take_bit 16 (unat (h AND 0x3FF))"
    by (simp add: unsigned_ucast_eq)
  also have "\<dots> \<le> unat (h AND 0x3FF)" by (rule take_bit_nat_less_eq_self)
  finally have "unat (ucast (h AND 0x3FF) :: 16 word) \<le> 1023" using le by simp
  then show ?thesis by (simp add: word_le_nat_alt)
qed

lemma ifaceShard_bound: "ifaceShard ifs = Some s \<Longrightarrow> s \<le> 1023"
  by (induction ifs) (auto simp: ucast_mask_3FF_le split: if_splits)

lemma autoShard_bound: "autoShardWithDeps d = Inr s \<Longrightarrow> s \<le> 1023"
  by (auto simp: autoShardWithDeps_def ucast_mask_3FF_le mask_3FF_le16
        dest: ifaceShard_bound split: option.splits if_splits)

lemma autoShard_error: "autoShardWithDeps d = Inl err \<Longrightarrow> err = NoSignalAvailable"
  by (auto simp: autoShardWithDeps_def split: option.splits if_splits)

lemma word_of_int_shard_le:
  "0 \<le> i \<Longrightarrow> i \<le> 1023 \<Longrightarrow> (word_of_int i :: 16 word) \<le> 1023"
proof -
  assume a: "0 \<le> i" "i \<le> 1023"
  then have "take_bit 16 i = i" by (simp add: take_bit_int_eq_self)
  then have "uint (word_of_int i :: 16 word) = i" by (simp add: uint_word_of_int_eq)
  with a show ?thesis by (simp add: word_le_def)
qed

lemma New_fresh:
  "New d cfg = Inr g \<Longrightarrow> lastMs g = 0 \<and> seq g = 0 \<and> shard g \<le> 1023"
  by (auto simp: New_def Let_def word_of_int_shard_le not_less
        dest: autoShard_bound split: if_splits sum.splits option.splits)

text \<open>
  Claim C6. Construction with the explicit shard 1024 fails with \<open>InvalidShard\<close> and
  returns no generator; construction with the explicit shard 1023 succeeds and gives a
  generator whose shard is 1023 (whatever the system sources and the epoch).
\<close>

theorem New_shard_1024_1023:
  "New d (Some \<lparr>ShardID = 1024, CustomEpochMs = e\<rparr>) = Inl InvalidShard \<and>
   New d (Some \<lparr>ShardID = 1023, CustomEpochMs = e\<rparr>) =
     Inr \<lparr>lastMs = 0, seq = 0, shard = 1023,
          baseEpoch = (if e = 0 then defaultEpochMs else e)\<rparr>"
  by (simp add: New_def)

text \<open>
  Claim C9. Every negative \<open>ShardID\<close>, not only \<open>-1\<close>, is a request for
  auto-derivation: the result is that of \<open>autoShardWithDeps\<close> and never
  \<open>InvalidShard\<close>. \<open>New\<close> returns \<open>InvalidShard\<close> exactly when a configuration is
  given whose \<open>ShardID\<close> is greater than 1023.
\<close>

theorem New_negative_shard_auto:
  "(ShardID c < 0 \<longrightarrow>
      New d (Some c) =
        (case autoShardWithDeps d of
           Inl err \<Rightarrow> Inl err
         | Inr s \<Rightarrow>
             Inr \<lparr>lastMs = 0, seq = 0, shard = s,
                  baseEpoch = (if CustomEpochMs c = 0 then defaultEpochMs
                               else CustomEpochMs c)\<rparr>) \<and>
      New d (Some c) \<noteq> Inl InvalidShard) \<and>
   (New d cfg = Inl InvalidShard \<longleftrightarrow> (\<exists>c'. cfg = Some c' \<and> 1023 < ShardID c'))"
proof (intro conjI impI)
  assume neg: "ShardID c < 0"
  then show "New d (Some c) =
        (case autoShardWithDeps d of
           Inl err \<Rightarrow> Inl err
         | Inr s \<Rightarrow>
             Inr \<lparr>lastMs = 0, seq = 0, shard = s,
                  baseEpoch = (if CustomEpochMs c = 0 then defaultEpochMs
                               else CustomEpochMs c)\<rparr>)"
    by (simp add: New_def Let_def split: sum.splits)
  from neg show "New d (Some c) \<noteq> Inl InvalidShard"
    by (auto simp: New_def Let_def dest: autoShard_error split: sum.splits)
next
  show "New d cfg = Inl InvalidShard \<longleftrightarrow> (\<exists>c'. cfg = Some c' \<and> 1023 < ShardID c')"
    by (cases cfg)
       (auto simp: New_def Let_def dest: autoShard_error split: sum.splits if_splits)
qed

lemma New_negative_eval:
  "ShardID \<lparr>ShardID = - 5, CustomEpochMs = 0\<rparr> < 0"
  "New \<lparr>ifacesFunc = [], hostFunc = None, randFunc = Some (0xAB, 0xCD)\<rparr>
       (Some \<lparr>ShardID = - 5, CustomEpochMs = 0\<rparr>) =
     Inr \<lparr>lastMs = 0, seq = 0, shard = 973, baseEpoch = defaultEpochMs\<rparr>"
  "New \<lparr>ifacesFunc = [], hostFunc = None, randFunc = None\<rparr>
       (Some \<lparr>ShardID = - 5, CustomEpochMs = 0\<rparr>) = Inl NoSignalAvailable"
  "New \<lparr>ifacesFunc = [], hostFunc = None, randFunc = Some (0xAB, 0xCD)\<rparr>
       (Some \<lparr>ShardID = 1024, CustomEpochMs = 0\<rparr>) = Inl InvalidShard"
  by (simp_all add: New_def autoShardWithDeps_def bigEndianUint16_def)

theorem New_negative_shard_auto_witness:
  "ShardID \<lparr>ShardID = - 5, CustomEpochMs = 0\<rparr> < 0 \<and>
   New \<lparr>ifacesFunc = [], hostFunc = None, randFunc = Some (0xAB, 0xCD)\<rparr>
       (Some \<lparr>ShardID = - 5, CustomEpochMs = 0\<rparr>) =
     Inr \<lparr>lastMs = 0, seq = 0, shard = 973, baseEpoch = defaultEpochMs\<rparr> \<and>
   New \<lparr>ifacesFunc = [], hostFunc = None, randFunc = Some (0xAB, 0xCD)\<rparr>
       (Some \<lparr>ShardID = - 5, CustomEpochMs = 0\<rparr>) \<noteq> Inl InvalidShard \<and>
   New \<lparr>ifacesFunc = [], hostFunc = None, randFunc = None\<rparr>
       (Some \<lparr>ShardID = - 5, CustomEpochMs = 0\<rparr>) = Inl NoSignalAvailable \<and>
   New \<lparr>ifacesFunc = [], hostFunc = None, randFunc = Some (0xAB, 0xCD)\<rparr>
       (Some \<lparr>ShardID = 1024, CustomEpochMs = 0\<rparr>) = Inl InvalidShard"
proof -
  have "New \<lparr>ifacesFunc = [], hostFunc = None, randFunc = Some (0xAB, 0xCD)\<rparr>
       (Some \<lparr>ShardID = - 5, CustomEpochMs = 0\<rparr>) \<noteq> Inl InvalidShard"
    using
      New_negative_shard_auto
        [of "\<lparr>ShardID = - 5, CustomEpochMs = 0\<rparr>"
            "\<lparr>ifacesFunc = [], hostFunc = None, randFunc = Some (0xAB, 0xCD)\<rparr>"
            "Some \<lparr>ShardID = 1024, CustomEpochMs = 0\<rparr>"]
      New_negative_eval(1)
    by blast
  with New_negative_eval show ?thesis by blast
qed

subsection \<open>The fields of a packed value\<close>

lemma unat_and_7FFF: "unat ((v :: 64 word) AND 0x7FFF) = unat v mod 2 ^ 15"
proof -
  have "unat (take_bit 15 v) = unat v mod 2 ^ 15"
    by (simp add: take_bit_eq_mod unat_mod)
  then show ?thesis
    by (simp add: take_bit_eq_mask mask_eq_exp_minus_1)
qed

lemma unat_and_3FF: "unat ((v :: 64 word) AND 0x3FF) = unat v mod 2 ^ 10"
proof -
  have "unat (take_bit 10 v) = unat v mod 2 ^ 10"
    by (simp add: take_bit_eq_mod unat_mod)
  then show ?thesis
    by (simp add: take_bit_eq_mask mask_eq_exp_minus_1)
qed

lemma unat_drop: "unat (drop_bit n (v :: 64 word)) = unat v div 2 ^ n"
  by (simp only: unat_drop_bit_eq) (rule drop_bit_eq_div)

lemma fields_arith:
  fixes T S Q :: nat
  assumes S: "S < 2 ^ 10" and Q: "Q < 2 ^ 15"
  shows "(T * 2 ^ 25 + S * 2 ^ 15 + Q) div 2 ^ 25 = T"
    and "(T * 2 ^ 25 + S * 2 ^ 15 + Q) div 2 ^ 15 mod 2 ^ 10 = S"
    and "(T * 2 ^ 25 + S * 2 ^ 15 + Q) mod 2 ^ 15 = Q"
proof -
  have md: "(M * c + R) mod c = R" "(M * c + R) div c = M" if "R < c" for M c R :: nat
    using that by simp_all
  have e: "(2 :: nat) ^ 25 = 2 ^ 10 * 2 ^ 15" by simp
  have a: "T * 2 ^ 25 + S * 2 ^ 15 + Q = (T * 2 ^ 10 + S) * 2 ^ 15 + Q"
    by (simp only: e add_mult_distrib mult.assoc)
  have d15: "(T * 2 ^ 25 + S * 2 ^ 15 + Q) div 2 ^ 15 = T * 2 ^ 10 + S"
    by (simp only: a md(2) [OF Q])
  show "(T * 2 ^ 25 + S * 2 ^ 15 + Q) mod 2 ^ 15 = Q"
    by (simp only: a md(1) [OF Q])
  show "(T * 2 ^ 25 + S * 2 ^ 15 + Q) div 2 ^ 15 mod 2 ^ 10 = S"
    by (simp only: d15 md(1) [OF S])
  have "(T * 2 ^ 25 + S * 2 ^ 15 + Q) div 2 ^ 25
        = (T * 2 ^ 25 + S * 2 ^ 15 + Q) div 2 ^ 15 div 2 ^ 10"
    by (subst e) (simp only: mult.commute [of "2 ^ 10" "2 ^ 15"] div_mult2_eq)
  also have "\<dots> = T" by (simp only: d15 md(2) [OF S])
  finally show "(T * 2 ^ 25 + S * 2 ^ 15 + Q) div 2 ^ 25 = T" .
qed

lemma pack_fields:
  assumes "sh \<le> 1023" "sq < 2 ^ 15"
  shows "unat (tickField (pack t sh sq)) = unat t mod 2 ^ 39"
    and "unat (shardField (pack t sh sq)) = unat sh"
    and "unat (seqField (pack t sh sq)) = unat sq"
proof -
  have sh: "unat sh < 2 ^ 10" using assms(1) by (simp add: word_le_nat_alt)
  have sq: "unat sq < 2 ^ 15" using assms(2) by (simp add: word_less_nat_alt)
  note u = unat_pack [OF assms]
  show "unat (tickField (pack t sh sq)) = unat t mod 2 ^ 39"
    unfolding tickField_def
    by (simp only: unat_drop u fields_arith(1) [OF sh sq])
  show "unat (shardField (pack t sh sq)) = unat sh"
    unfolding shardField_def
    by (simp only: unat_and_3FF unat_drop u fields_arith(2) [OF sh sq])
  show "unat (seqField (pack t sh sq)) = unat sq"
    unfolding seqField_def
    by (simp only: unat_and_7FFF u fields_arith(3) [OF sh sq])
qed

section \<open>The first call at or before the epoch\<close>

lemma word_of_unat_eq: "unat (w :: 64 word) = unat (w' :: 64 word) \<Longrightarrow> w = w'"
  by (simp add: word_unat_eq_iff)

text \<open>
  Claim C10. On a generator fresh from \<open>New\<close>, \<open>lastMs\<close> and \<open>seq\<close> are 0; if the first
  call reads a clock at or before the epoch (epoch-relative tick \<open>\<le> 0\<close>), the
  same-millisecond branch is taken, and the identifier carries the tick field 0 and the
  sequence field 1.
\<close>

theorem first_call_not_after_epoch:
  assumes new: "New d cfg = Inr g" and early: "nowFunc k - baseEpoch g \<le>s 0"
  shows "lastMs g = 0 \<and> seq g = 0 \<and>
         max64 (nowFunc k - baseEpoch g) (lastMs g) = lastMs g \<and>
         nextVal g nowFunc k = Some (pack 0 (shard g) 1, g\<lparr>seq := 1\<rparr>, Suc k) \<and>
         Next g nowFunc k = Some (encode (pack 0 (shard g) 1), g\<lparr>seq := 1\<rparr>, Suc k) \<and>
         tickField (pack 0 (shard g) 1) = 0 \<and> seqField (pack 0 (shard g) 1) = 1"
proof -
  from New_fresh [OF new] have g: "lastMs g = 0" "seq g = 0" "shard g \<le> 1023"
    by simp_all
  have m: "max64 (nowFunc k - baseEpoch g) (lastMs g) = lastMs g"
    using early g by (simp add: max64_def)
  have n: "\<not> (32768 :: 16 word) \<le> 1" by (simp add: word_le_nat_alt)
  have nv: "nextVal g nowFunc k = Some (pack 0 (shard g) 1, g\<lparr>seq := 1\<rparr>, Suc k)"
    using early g n by (simp add: nextVal_def max64_def Let_def)
  have q1: "(1 :: 16 word) < 2 ^ 15" by simp
  have "unat (tickField (pack 0 (shard g) 1)) = unat (0 :: 64 word)"
    using pack_fields(1) [OF g(3) q1, of 0] by simp
  then have tf: "tickField (pack 0 (shard g) 1) = 0" by (rule word_of_unat_eq)
  have "unat (seqField (pack 0 (shard g) 1)) = unat (1 :: 64 word)"
    using pack_fields(3) [OF g(3) q1, of 0] by simp
  then have sf: "seqField (pack 0 (shard g) 1) = 1" by (rule word_of_unat_eq)
  from g m nv tf sf show ?thesis by (simp add: Next_def)
qed


lemma early_eval:
  "New \<lparr>ifacesFunc = [], hostFunc = None, randFunc = Some (0xAB, 0xCD)\<rparr> None =
     Inr \<lparr>lastMs = 0, seq = 0, shard = 973, baseEpoch = defaultEpochMs\<rparr>"
  "(1500000000000 :: 64 word) -
     baseEpoch \<lparr>lastMs = 0, seq = 0, shard = 973, baseEpoch = defaultEpochMs\<rparr> \<le>s 0"
  "encode (pack 0 973 1) = ''AAAAAAB5oAB''"
  by code_simp+

theorem first_call_not_after_epoch_witness:
  "New \<lparr>ifacesFunc = [], hostFunc = None, randFunc = Some (0xAB, 0xCD)\<rparr> None =
     Inr \<lparr>lastMs = 0, seq = 0, shard = 973, baseEpoch = defaultEpochMs\<rparr> \<and>
   (1500000000000 :: 64 word) -
     baseEpoch \<lparr>lastMs = 0, seq = 0, shard = 973, baseEpoch = defaultEpochMs\<rparr> \<le>s 0 \<and>
   Next \<lparr>lastMs = 0, seq = 0, shard = 973, baseEpoch = defaultEpochMs\<rparr>
        (\<lambda>_. 1500000000000) 0 =
     Some (''AAAAAAB5oAB'',
           \<lparr>lastMs = 0, seq = 1, shard = 973, baseEpoch = defaultEpochMs\<rparr>, 1) \<and>
   tickField (pack 0 973 1) = 0 \<and> seqField (pack 0 973 1) = 1"
  using first_call_not_after_epoch [OF early_eval(1), of "\<lambda>_. 1500000000000" 0] early_eval
  by simp

section \<open>Two calls at a frozen clock\<close>

lemma encode_split:
  "encode v = map (\<lambda>d. alphabet ! d) (digs 10 (unat v div 64)) @ [alphabet ! (unat v mod 64)]"
proof -
  have "(11 :: nat) = Suc 10" by simp
  then show ?thesis by (simp only: encode_digs digs.simps map_append list.map)
qed

lemma encode_take_last:
  "take 10 (encode v) = map (\<lambda>d. alphabet ! d) (digs 10 (unat v div 64))"
  "encode v ! 10 = alphabet ! (unat v mod 64)"
  by (simp_all add: encode_split digs_length nth_append)

lemma pack_low_digit:
  assumes sh: "sh \<le> 1023" and q: "unat sq < 64"
  shows "unat (pack t sh sq) div 64 = (unat t mod 2 ^ 39) * 2 ^ 19 + unat sh * 2 ^ 9"
    and "unat (pack t sh sq) mod 64 = unat sq"
proof -
  have md: "(M * c + R) mod c = R" "(M * c + R) div c = M" if "R < c" for M c R :: nat
    using that by simp_all
  have "unat sq < 2 ^ 15" using q by simp
  then have "sq < 2 ^ 15" by (simp add: word_less_nat_alt)
  note u = unat_pack [OF sh this]
  have e: "(2 :: nat) ^ 25 = 2 ^ 19 * 64" "(2 :: nat) ^ 15 = 2 ^ 9 * 64" by simp_all
  have a: "(unat t mod 2 ^ 39) * 2 ^ 25 + unat sh * 2 ^ 15 + unat sq
           = ((unat t mod 2 ^ 39) * 2 ^ 19 + unat sh * 2 ^ 9) * 64 + unat sq"
    by (simp only: e add_mult_distrib mult.assoc)
  show "unat (pack t sh sq) div 64 = (unat t mod 2 ^ 39) * 2 ^ 19 + unat sh * 2 ^ 9"
    by (simp only: u a md(2) [OF q])
  show "unat (pack t sh sq) mod 64 = unat sq"
    by (simp only: u a md(1) [OF q])
qed

text \<open>
  Claim C5, as amended. \<open>New\<close> with shard 1 and \<open>CustomEpochMs = 0\<close> gives the generator
  of the default epoch 1577836800000 (2020-01-01), not of the Unix epoch. With the clock
  frozen at a reading whose epoch-relative tick \<open>T\<close> is strictly positive, two successive
  calls on it produce the packed values \<open>(T<<25)|(1<<15)|0\<close> and \<open>(T<<25)|(1<<15)|1\<close>,
  and the two encodings have the same first ten characters and the last characters of
  alphabet index 0 and 1.
\<close>

theorem frozen_clock_two_calls:
  "New d (Some \<lparr>ShardID = 1, CustomEpochMs = 0\<rparr>) = Inr shard1Gen \<and>
   baseEpoch shard1Gen = 1577836800000 \<and>
   (0 <s T \<longrightarrow>
      nextVal shard1Gen (\<lambda>_. defaultEpochMs + T) k =
        Some (push_bit 25 T OR push_bit 15 1 OR 0, shard1Gen\<lparr>lastMs := T\<rparr>, Suc k) \<and>
      nextVal (shard1Gen\<lparr>lastMs := T\<rparr>) (\<lambda>_. defaultEpochMs + T) (Suc k) =
        Some (push_bit 25 T OR push_bit 15 1 OR 1, shard1Gen\<lparr>lastMs := T, seq := 1\<rparr>,
              Suc (Suc k)) \<and>
      Next shard1Gen (\<lambda>_. defaultEpochMs + T) k =
        Some (encode (push_bit 25 T OR push_bit 15 1 OR 0), shard1Gen\<lparr>lastMs := T\<rparr>, Suc k) \<and>
      Next (shard1Gen\<lparr>lastMs := T\<rparr>) (\<lambda>_. defaultEpochMs + T) (Suc k) =
        Some (encode (push_bit 25 T OR push_bit 15 1 OR 1), shard1Gen\<lparr>lastMs := T, seq := 1\<rparr>,
              Suc (Suc k)) \<and>
      take 10 (encode (push_bit 25 T OR push_bit 15 1 OR 0)) =
        take 10 (encode (push_bit 25 T OR push_bit 15 1 OR 1)) \<and>
      encode (push_bit 25 T OR push_bit 15 1 OR 0) ! 10 = alphabet ! 0 \<and>
      encode (push_bit 25 T OR push_bit 15 1 OR 1) ! 10 = alphabet ! 1)"
proof (intro conjI impI)
  show "New d (Some \<lparr>ShardID = 1, CustomEpochMs = 0\<rparr>) = Inr shard1Gen"
    by (simp add: New_def shard1Gen_def)
  show "baseEpoch shard1Gen = 1577836800000"
    by (simp add: shard1Gen_def defaultEpochMs_def)
next
  assume pos: "0 <s T"
  then have T: "\<not> T \<le>s 0" "T \<noteq> 0"
    by (auto simp: word_sless_alt word_sle_eq)
  have p0: "pack T 1 0 = push_bit 25 T OR push_bit 15 1 OR 0"
    and p1: "pack T 1 1 = push_bit 25 T OR push_bit 15 1 OR 1"
    by (simp_all add: pack_def)
  have n: "\<not> (32768 :: 16 word) \<le> 1" by (simp add: word_le_nat_alt)
  show v0: "nextVal shard1Gen (\<lambda>_. defaultEpochMs + T) k =
        Some (push_bit 25 T OR push_bit 15 1 OR 0, shard1Gen\<lparr>lastMs := T\<rparr>, Suc k)"
    using T by (simp add: nextVal_def max64_def Let_def shard1Gen_def pack_def)
  show v1: "nextVal (shard1Gen\<lparr>lastMs := T\<rparr>) (\<lambda>_. defaultEpochMs + T) (Suc k) =
        Some (push_bit 25 T OR push_bit 15 1 OR 1, shard1Gen\<lparr>lastMs := T, seq := 1\<rparr>,
              Suc (Suc k))"
    using n by (simp add: nextVal_def max64_def Let_def shard1Gen_def pack_def)
  show "Next shard1Gen (\<lambda>_. defaultEpochMs + T) k =
        Some (encode (push_bit 25 T OR push_bit 15 1 OR 0), shard1Gen\<lparr>lastMs := T\<rparr>, Suc k)"
    by (simp add: Next_def v0)
  show "Next (shard1Gen\<lparr>lastMs := T\<rparr>) (\<lambda>_. defaultEpochMs + T) (Suc k) =
        Some (encode (push_bit 25 T OR push_bit 15 1 OR 1), shard1Gen\<lparr>lastMs := T, seq := 1\<rparr>,
              Suc (Suc k))"
    by (simp add: Next_def v1)
  have sh: "(1 :: 16 word) \<le> 1023" by simp
  have q0: "unat (0 :: 16 word) < 64" and q1: "unat (1 :: 16 word) < 64" by simp_all
  show "take 10 (encode (push_bit 25 T OR push_bit 15 1 OR 0)) =
        take 10 (encode (push_bit 25 T OR push_bit 15 1 OR 1))"
    by (simp only: p0 [symmetric] p1 [symmetric] encode_take_last
          pack_low_digit(1) [OF sh q0] pack_low_digit(1) [OF sh q1])
  have "encode (pack T 1 0) ! 10 = alphabet ! 0"
    by (simp only: encode_take_last pack_low_digit(2) [OF sh q0] unsigned_0)
  then show "encode (push_bit 25 T OR push_bit 15 1 OR 0) ! 10 = alphabet ! 0"
    by (simp only: p0)
  have "encode (pack T 1 1) ! 10 = alphabet ! 1"
    by (simp only: encode_take_last pack_low_digit(2) [OF sh q1] unsigned_1)
  then show "encode (push_bit 25 T OR push_bit 15 1 OR 1) ! 10 = alphabet ! 1"
    by (simp only: p1)
qed

lemma frozen_eval:
  "(0 :: 64 word) <s 5"
  "encode (push_bit 25 5 OR push_bit 15 1 OR 0) = ''AAAAAAKAIAA''"
  "encode (push_bit 25 5 OR push_bit 15 1 OR 1) = ''AAAAAAKAIAB''"
  "(push_bit 25 5 OR push_bit 15 1 OR 0 :: 64 word) = 167804928"
  "(push_bit 25 5 OR push_bit 15 1 OR 1 :: 64 word) = 167804929"
  by code_simp+

theorem frozen_clock_two_calls_witness:
  "(0 :: 64 word) <s 5 \<and>
   nextVal shard1Gen (\<lambda>_. defaultEpochMs + 5) 0 =
     Some (167804928, shard1Gen\<lparr>lastMs := 5\<rparr>, Suc 0) \<and>
   nextVal (shard1Gen\<lparr>lastMs := 5\<rparr>) (\<lambda>_. defaultEpochMs + 5) (Suc 0) =
     Some (167804929, shard1Gen\<lparr>lastMs := 5, seq := 1\<rparr>, Suc (Suc 0)) \<and>
   Next shard1Gen (\<lambda>_. defaultEpochMs + 5) 0 =
     Some (''AAAAAAKAIAA'', shard1Gen\<lparr>lastMs := 5\<rparr>, Suc 0) \<and>
   Next (shard1Gen\<lparr>lastMs := 5\<rparr>) (\<lambda>_. defaultEpochMs + 5) (Suc 0) =
     Some (''AAAAAAKAIAB'', shard1Gen\<lparr>lastMs := 5, seq := 1\<rparr>, Suc (Suc 0)) \<and>
   take 10 ''AAAAAAKAIAA'' = take 10 ''AAAAAAKAIAB'' \<and>
   ''AAAAAAKAIAA'' ! 10 = alphabet ! 0 \<and> ''AAAAAAKAIAB'' ! 10 = alphabet ! 1"
  using frozen_clock_two_calls [of "\<lparr>ifacesFunc = [], hostFunc = None, randFunc = None\<rparr>" 5 0]
    frozen_eval
  by (simp only: simp_thms)

text \<open>
  The claim as stated fails. With \<open>CustomEpochMs = 0\<close> the epoch of the generator is
  1577836800000, so at the clock reading 1700000000000 the first packed value has the
  tick 122163200000, not 1700000000000. And a tick that is not positive does not give
  the sequence 0: at the reading 1577836800000 (tick 0) the first packed value is
  \<open>(0<<25)|(1<<15)|1\<close>.
\<close>

theorem frozen_clock_counterexample:
  "New \<lparr>ifacesFunc = [], hostFunc = None, randFunc = None\<rparr>
       (Some \<lparr>ShardID = 1, CustomEpochMs = 0\<rparr>) =
     Inr \<lparr>lastMs = 0, seq = 0, shard = 1, baseEpoch = 1577836800000\<rparr> \<and>
   nextVal \<lparr>lastMs = 0, seq = 0, shard = 1, baseEpoch = 1577836800000\<rparr>
           (\<lambda>_. 1700000000000) 0 =
     Some (4099116787302432768,
           \<lparr>lastMs = 122163200000, seq = 0, shard = 1, baseEpoch = 1577836800000\<rparr>, 1) \<and>
   (4099116787302432768 :: 64 word) \<noteq> (push_bit 25 1700000000000 OR push_bit 15 1 OR 0) \<and>
   nextVal \<lparr>lastMs = 0, seq = 0, shard = 1, baseEpoch = 1577836800000\<rparr>
           (\<lambda>_. 1577836800000) 0 =
     Some (32769, \<lparr>lastMs = 0, seq = 1, shard = 1, baseEpoch = 1577836800000\<rparr>, 1) \<and>
   (32769 :: 64 word) \<noteq> (push_bit 25 0 OR push_bit 15 1 OR 0) \<and>
   (32769 :: 64 word) \<noteq> (push_bit 25 1577836800000 OR push_bit 15 1 OR 0)"
  by code_simp

section \<open>Automatic shard\<close>

lemma ifaceShard_none:
  "list_all (\<lambda>i. Flags i AND FlagLoopback \<noteq> 0 \<or> HardwareAddr i = []) ifs \<Longrightarrow>
   ifaceShard ifs = None"
  by (induction ifs) auto

lemma autoShard_no_iface:
  assumes "list_all (\<lambda>i. Flags i AND FlagLoopback \<noteq> 0 \<or> HardwareAddr i = []) (ifacesFunc d)"
  shows "autoShardWithDeps d =
     (case hostFunc d of
        Some hn \<Rightarrow> Inr (ucast (fnv32a hn AND 0x3FF))
      | None \<Rightarrow>
          (case randFunc d of
             Some (b0, b1) \<Rightarrow> Inr (bigEndianUint16 b0 b1 AND 0x3FF)
           | None \<Rightarrow> Inl NoSignalAvailable))"
proof -
  have "ifaceShard (ifacesFunc d) = None" using assms by (rule ifaceShard_none)
  then show ?thesis by (simp add: autoShardWithDeps_def)
qed


text \<open>
  Claim C4. When no interface qualifies (each is a loopback or has no hardware address,
  or the list is empty) and the host name is obtained, the shard is FNV-1a-32 of the
  host name's bytes masked with \<open>0x3FF\<close>; when the host name fails too and the random
  bytes are obtained, it is their big-endian 16-bit value masked with \<open>0x3FF\<close>; when
  the random source fails as well, the result is an error.
\<close>

theorem autoShard_fallback_chain:
  "(list_all (\<lambda>i. Flags i AND FlagLoopback \<noteq> 0 \<or> HardwareAddr i = []) (ifacesFunc d) \<and>
    hostFunc d = Some hn \<longrightarrow>
      autoShardWithDeps d = Inr (ucast (fnv32a hn AND 0x3FF))) \<and>
   (list_all (\<lambda>i. Flags i AND FlagLoopback \<noteq> 0 \<or> HardwareAddr i = []) (ifacesFunc d) \<and>
    hostFunc d = None \<and> randFunc d = Some (b0, b1) \<longrightarrow>
      autoShardWithDeps d = Inr ((ucast b1 OR push_bit 8 (ucast b0)) AND 0x3FF)) \<and>
   (list_all (\<lambda>i. Flags i AND FlagLoopback \<noteq> 0 \<or> HardwareAddr i = []) (ifacesFunc d) \<and>
    hostFunc d = None \<and> randFunc d = None \<longrightarrow>
      autoShardWithDeps d = Inl NoSignalAvailable)"
proof (intro conjI impI)
  assume "list_all (\<lambda>i. Flags i AND FlagLoopback \<noteq> 0 \<or> HardwareAddr i = []) (ifacesFunc d) \<and>
    hostFunc d = Some hn"
  then show "autoShardWithDeps d = Inr (ucast (fnv32a hn AND 0x3FF))"
    by (simp add: autoShard_no_iface)
next
  assume "list_all (\<lambda>i. Flags i AND FlagLoopback \<noteq> 0 \<or> HardwareAddr i = []) (ifacesFunc d) \<and>
    hostFunc d = None \<and> randFunc d = Some (b0, b1)"
  then show "autoShardWithDeps d = Inr ((ucast b1 OR push_bit 8 (ucast b0)) AND 0x3FF)"
    by (simp add: autoShard_no_iface bigEndianUint16_def)
next
  assume "list_all (\<lambda>i. Flags i AND FlagLoopback \<noteq> 0 \<or> HardwareAddr i = []) (ifacesFunc d) \<and>
    hostFunc d = None \<and> randFunc d = None"
  then show "autoShardWithDeps d = Inl NoSignalAvailable"
    by (simp add: autoShard_no_iface)
qed


text \<open>
  The environments of \<open>TestAutoShardLogic\<close>: only the host name \<open>test-host\<close>; only
  the random bytes (with a loopback interface and one without hardware address);
  nothing.
\<close>

lemma fnv32a_vectors:
  "fnv32a [] = 0x811C9DC5" "fnv32a [0x61] = 0xE40C292C"
  "fnv32a [0x66, 0x6F, 0x6F, 0x62, 0x61, 0x72] = 0xBF9CF968"
  by (simp_all add: fnv32a_def)

lemma autoShard_eval:
  "list_all (\<lambda>i. Flags i AND FlagLoopback \<noteq> 0 \<or> HardwareAddr i = []) []"
  "list_all (\<lambda>i. Flags i AND FlagLoopback \<noteq> 0 \<or> HardwareAddr i = [])
     [\<lparr>Flags = 5, HardwareAddr = [0xDE, 0xAD, 0xBE, 0xEF]\<rparr>, \<lparr>Flags = 1, HardwareAddr = []\<rparr>]"
  "(ucast (fnv32a [116, 101, 115, 116, 45, 104, 111, 115, 116] AND 0x3FF) :: 16 word) = 842"
  "((ucast (0xCD :: 8 word) OR push_bit 8 (ucast (0xAB :: 8 word))) AND 0x3FF :: 16 word) = 973"
  by (simp_all add: FlagLoopback_def fnv32a_def)

theorem autoShard_fallback_chain_witness:
  "list_all (\<lambda>i. Flags i AND FlagLoopback \<noteq> 0 \<or> HardwareAddr i = []) [] \<and>
   list_all (\<lambda>i. Flags i AND FlagLoopback \<noteq> 0 \<or> HardwareAddr i = [])
     [\<lparr>Flags = 5, HardwareAddr = [0xDE, 0xAD, 0xBE, 0xEF]\<rparr>, \<lparr>Flags = 1, HardwareAddr = []\<rparr>] \<and>
   autoShardWithDeps
     \<lparr>ifacesFunc = [], hostFunc = Some [116, 101, 115, 116, 45, 104, 111, 115, 116],
      randFunc = None\<rparr> = Inr 842 \<and>
   autoShardWithDeps
     \<lparr>ifacesFunc = [\<lparr>Flags = 5, HardwareAddr = [0xDE, 0xAD, 0xBE, 0xEF]\<rparr>,
                   \<lparr>Flags = 1, HardwareAddr = []\<rparr>],
      hostFunc = None, randFunc = Some (0xAB, 0xCD)\<rparr> = Inr 973 \<and>
   autoShardWithDeps \<lparr>ifacesFunc = [], hostFunc = None, randFunc = None\<rparr> =
     Inl NoSignalAvailable"
  using
    autoShard_fallback_chain
      [of "\<lparr>ifacesFunc = [], hostFunc = Some [116, 101, 115, 116, 45, 104, 111, 115, 116],
            randFunc = None\<rparr>" "[116, 101, 115, 116, 45, 104, 111, 115, 116]"]
    autoShard_fallback_chain
      [of "\<lparr>ifacesFunc = [\<lparr>Flags = 5, HardwareAddr = [0xDE, 0xAD, 0xBE, 0xEF]\<rparr>,
                          \<lparr>Flags = 1, HardwareAddr = []\<rparr>],
            hostFunc = None, randFunc = Some (0xAB, 0xCD)\<rparr>" _ "0xAB" "0xCD"]
    autoShard_fallback_chain [of "\<lparr>ifacesFunc = [], hostFunc = None, randFunc = None\<rparr>"]
    autoShard_eval
  by simp

section \<open>The default generator of \<open>Gen\<close>\<close>

lemma onceDo_done: "defaultGenOnce (onceDo newFunc p)"
  by (simp add: onceDo_def split: sum.splits)

lemma onceDo_idle: "defaultGenOnce p \<Longrightarrow> onceDo newFunc p = p"
  by (simp add: onceDo_def)

text \<open>
  Claim C8. Once \<open>defaultGenOnce\<close> has run, a call of \<open>Gen\<close> without configuration does
  not depend on \<open>newFunc\<close> (nothing is constructed again); a call without configuration
  that returns leaves \<open>defaultGenOnce\<close> done, and a call with a configuration leaves the
  package state as it was. If the one initialization fails with \<open>err\<close>, that call returns
  \<open>err\<close>, and in the state it leaves every call without configuration returns \<open>err\<close>
  again and leaves the state unchanged, whatever \<open>newFunc\<close> and the clock are by then.
\<close>

theorem Gen_default_initialised_once:
  "(defaultGenOnce p \<longrightarrow> Gen newFunc p nowFunc k [] = Gen newFunc' p nowFunc k []) \<and>
   (Gen newFunc p nowFunc k [] = Some (r, p', k') \<longrightarrow> defaultGenOnce p') \<and>
   (Gen newFunc p nowFunc k (cfg # cfgs) = Some (r, p', k') \<longrightarrow> p' = p) \<and>
   (\<not> defaultGenOnce p \<and> newFunc None = Inl err \<longrightarrow>
      Gen newFunc p nowFunc k [] =
        Some (GenErr err,
              p\<lparr>defaultGen := None, defaultGenErr := Some err, defaultGenOnce := True\<rparr>, k) \<and>
      Gen newFunc' (p\<lparr>defaultGen := None, defaultGenErr := Some err, defaultGenOnce := True\<rparr>)
          nowFunc' k'' [] =
        Some (GenErr err,
              p\<lparr>defaultGen := None, defaultGenErr := Some err, defaultGenOnce := True\<rparr>, k''))"
proof (intro conjI impI)
  assume "defaultGenOnce p"
  then show "Gen newFunc p nowFunc k [] = Gen newFunc' p nowFunc k []"
    by (simp add: Gen_def onceDo_idle)
next
  assume "Gen newFunc p nowFunc k [] = Some (r, p', k')"
  then show "defaultGenOnce p'"
    using onceDo_done [of newFunc p]
    by (auto simp: Gen_def Let_def split: option.splits)
next
  assume "Gen newFunc p nowFunc k (cfg # cfgs) = Some (r, p', k')"
  then show "p' = p"
    by (auto simp: Gen_def split: sum.splits option.splits)
next
  assume a: "\<not> defaultGenOnce p \<and> newFunc None = Inl err"
  then show "Gen newFunc p nowFunc k [] =
        Some (GenErr err,
              p\<lparr>defaultGen := None, defaultGenErr := Some err, defaultGenOnce := True\<rparr>, k)"
    by (simp add: Gen_def onceDo_def)
  show "Gen newFunc' (p\<lparr>defaultGen := None, defaultGenErr := Some err, defaultGenOnce := True\<rparr>)
          nowFunc' k'' [] =
        Some (GenErr err,
              p\<lparr>defaultGen := None, defaultGenErr := Some err, defaultGenOnce := True\<rparr>, k'')"
    by (simp add: Gen_def onceDo_def)
qed


text \<open>
  A process where the first construction finds no source for the shard and a later one
  would succeed with random bytes; the clock is 5 ms after the default epoch.
\<close>

lemma Gen_eval:
  "New \<lparr>ifacesFunc = [], hostFunc = None, randFunc = None\<rparr> None = Inl NoSignalAvailable"
  "New \<lparr>ifacesFunc = [], hostFunc = None, randFunc = Some (0xAB, 0xCD)\<rparr> None =
     Inr \<lparr>lastMs = 0, seq = 0, shard = 973, baseEpoch = defaultEpochMs\<rparr>"
  "Gen (New \<lparr>ifacesFunc = [], hostFunc = None, randFunc = Some (0xAB, 0xCD)\<rparr>)
       \<lparr>defaultGen = None, defaultGenErr = Some NoSignalAvailable, defaultGenOnce = True\<rparr>
       (\<lambda>_. defaultEpochMs + 5) 0 [Some \<lparr>ShardID = 1, CustomEpochMs = 0\<rparr>] =
     Some (GenId ''AAAAAAKAIAA'',
           \<lparr>defaultGen = None, defaultGenErr = Some NoSignalAvailable, defaultGenOnce = True\<rparr>, 1)"
  by code_simp+

theorem Gen_default_initialised_once_witness:
  "\<not> defaultGenOnce \<lparr>defaultGen = None, defaultGenErr = None, defaultGenOnce = False\<rparr> \<and>
   New \<lparr>ifacesFunc = [], hostFunc = None, randFunc = None\<rparr> None = Inl NoSignalAvailable \<and>
   New \<lparr>ifacesFunc = [], hostFunc = None, randFunc = Some (0xAB, 0xCD)\<rparr> None =
     Inr \<lparr>lastMs = 0, seq = 0, shard = 973, baseEpoch = defaultEpochMs\<rparr> \<and>
   Gen (New \<lparr>ifacesFunc = [], hostFunc = None, randFunc = None\<rparr>)
       \<lparr>defaultGen = None, defaultGenErr = None, defaultGenOnce = False\<rparr>
       (\<lambda>_. defaultEpochMs + 5) 0 [] =
     Some (GenErr NoSignalAvailable,
           \<lparr>defaultGen = None, defaultGenErr = Some NoSignalAvailable, defaultGenOnce = True\<rparr>, 0) \<and>
   Gen (New \<lparr>ifacesFunc = [], hostFunc = None, randFunc = Some (0xAB, 0xCD)\<rparr>)
       \<lparr>defaultGen = None, defaultGenErr = Some NoSignalAvailable, defaultGenOnce = True\<rparr>
       (\<lambda>_. defaultEpochMs + 5) 0 [] =
     Some (GenErr NoSignalAvailable,
           \<lparr>defaultGen = None, defaultGenErr = Some NoSignalAvailable, defaultGenOnce = True\<rparr>, 0) \<and>
   Gen (New \<lparr>ifacesFunc = [], hostFunc = None, randFunc = Some (0xAB, 0xCD)\<rparr>)
       \<lparr>defaultGen = None, defaultGenErr = Some NoSignalAvailable, defaultGenOnce = True\<rparr>
       (\<lambda>_. defaultEpochMs + 5) 0 [Some \<lparr>ShardID = 1, CustomEpochMs = 0\<rparr>] =
     Some (GenId ''AAAAAAKAIAA'',
           \<lparr>defaultGen = None, defaultGenErr = Some NoSignalAvailable, defaultGenOnce = True\<rparr>, 1)"
  using
    Gen_default_initialised_once
      [of "\<lparr>defaultGen = None, defaultGenErr = None, defaultGenOnce = False\<rparr>"
          "New \<lparr>ifacesFunc = [], hostFunc = None, randFunc = None\<rparr>"
          "\<lambda>_. defaultEpochMs + 5" 0
          "New \<lparr>ifacesFunc = [], hostFunc = None, randFunc = Some (0xAB, 0xCD)\<rparr>"
          _ _ _ _ _ NoSignalAvailable "\<lambda>_. defaultEpochMs + 5" 0]
    Gen_eval
  by simp

end
